theory Spec2Isabelle
  imports
    Complex_Main
    "HOL-Library.Log_Nat"
    "HOL-Library.Signed_Division"
    "HOL-Library.AList"
begin

section \<open>Token-bucket rate limiter of fiber/middleware/ratelimit.go\<close>

text \<open>
  The limiter keeps one token bucket per key in a Go map, refills a bucket lazily from the
  time elapsed since its last refill, and bounds the map by a stale sweep and by evicting
  the least recently accessed bucket. The development embeds \<open>RateLimiter.take\<close>,
  \<open>cleanupStaleBuckets\<close> and \<open>evictOldestBucket\<close> with the clock reading
  \<open>time.Now()\<close> passed as an argument.
\<close>

subsection \<open>Time and durations\<close>

text \<open>
  A \<open>time.Duration\<close> is an int64 count of nanoseconds. A \<open>time.Time\<close> is modelled
  by an integer count of nanoseconds on one clock (the monotonic reading that
  \<open>time.Now()\<close> attaches and that \<open>Sub\<close> and \<open>Before\<close> compare).
\<close>

type_synonym duration = int
type_synonym time = int

definition Second :: duration where
  "Second = 1000000000"

definition Minute :: duration where
  "Minute = 60 * Second"

definition maxDuration :: duration where
  "maxDuration = 2 ^ 63 - 1"

definition minDuration :: duration where
  "minDuration = - (2 ^ 63)"

definition defaultMaxBuckets :: int where
  "defaultMaxBuckets = 10000"

definition bucketCleanupInterval :: duration where
  "bucketCleanupInterval = 5 * Minute"

definition bucketInactiveThreshold :: duration where
  "bucketInactiveThreshold = 15 * Minute"

text \<open>\<open>t.Sub(u)\<close>: the difference, saturated at the largest and smallest duration.\<close>

definition Sub :: "time \<Rightarrow> time \<Rightarrow> duration" where
  "Sub t u =
     (let d = t - u
      in if maxDuration < d then maxDuration
         else if d < minDuration then minDuration
         else d)"

text \<open>\<open>t.Add(d)\<close> and \<open>t.Before(u)\<close>.\<close>

definition Add :: "time \<Rightarrow> duration \<Rightarrow> time" where
  "Add t d = t + d"

definition Before :: "time \<Rightarrow> time \<Rightarrow> bool" where
  "Before t u = (t < u)"

subsection \<open>float64 arithmetic\<close>

text \<open>
  A finite float64 is modelled by the rational it denotes. Every arithmetic operation is
  the exact operation followed by \<open>round_f64\<close>, rounding to the nearest value with a
  53-bit significand, ties to the even significand. The exponent is not bounded: overflow
  to infinity and subnormal results, which need magnitudes above \<open>2^1023\<close> or below
  \<open>2^-1022\<close>, are not modelled. Operations are rounded one by one (no fused
  multiply-add). The one division whose divisor can be zero is treated where it occurs,
  in \<open>retryAfter\<close>.
\<close>

type_synonym float64 = rat

text \<open>\<open>expo x\<close> is the integer \<open>e\<close> with \<open>2^e \<le> |x| < 2^(e+1)\<close>, for \<open>x \<noteq> 0\<close>.\<close>

definition expo :: "rat \<Rightarrow> int" where
  "expo x =
     (let (p, q) = quotient_of \<bar>x\<bar>;
          d = bitlen p - bitlen q
      in if 2 powi d \<le> \<bar>x\<bar> then d else d - 1)"

definition round_even :: "rat \<Rightarrow> int" where
  "round_even y =
     (let f = \<lfloor>y\<rfloor>; d = y - of_int f
      in if d < 1 / 2 then f
         else if 1 / 2 < d then f + 1
         else if even f then f else f + 1)"

definition round_f64 :: "rat \<Rightarrow> float64" where
  "round_f64 x =
     (if x = 0 then 0
      else let u = 2 powi (expo x - 52)
           in sgn x * of_int (round_even (\<bar>x\<bar> / u)) * u)"

definition f64_of_int :: "int \<Rightarrow> float64" where
  "f64_of_int n = round_f64 (of_int n)"

definition f64_add :: "float64 \<Rightarrow> float64 \<Rightarrow> float64" where
  "f64_add x y = round_f64 (x + y)"

definition f64_sub :: "float64 \<Rightarrow> float64 \<Rightarrow> float64" where
  "f64_sub x y = round_f64 (x - y)"

definition f64_mul :: "float64 \<Rightarrow> float64 \<Rightarrow> float64" where
  "f64_mul x y = round_f64 (x * y)"

text \<open>Division by a divisor that is not zero.\<close>

definition f64_div :: "float64 \<Rightarrow> float64 \<Rightarrow> float64" where
  "f64_div x y = round_f64 (x / y)"

text \<open>
  \<open>d.Minutes()\<close> of package time:
  \<^verbatim>\<open>min := d / Minute; nsec := d % Minute; return float64(min) + float64(nsec)/(60*1e9)\<close>
  with Go's integer division and remainder, which truncate toward zero.
\<close>

definition Minutes :: "duration \<Rightarrow> float64" where
  "Minutes d =
     f64_add (f64_of_int (d sdiv Minute)) (f64_div (f64_of_int (d smod Minute)) 60000000000)"

text \<open>
  The conversion \<open>time.Duration(x)\<close> of a float64 truncates toward zero. When the value
  is not finite (\<open>None\<close>) or does not fit int64, Go leaves the result to the
  implementation; \<open>oor\<close> is the int64 that the platform yields then.
\<close>

definition trunc :: "rat \<Rightarrow> int" where
  "trunc v = (if 0 \<le> v then \<lfloor>v\<rfloor> else \<lceil>v\<rceil>)"

definition toDuration :: "int \<Rightarrow> float64 option \<Rightarrow> duration" where
  "toDuration oor x =
     (case x of
        None \<Rightarrow> oor
      | Some v \<Rightarrow>
          (let n = trunc v
           in if minDuration \<le> n \<and> n \<le> maxDuration then n else oor))"

subsection \<open>Buckets and the limiter\<close>

text \<open>
  The struct \<open>bucket\<close>; the field \<open>last\<close> is named \<open>last_refill\<close> here. The Go map
  \<open>buckets\<close> is an association list with one entry per key; its order is the order in
  which a \<open>range\<close> loop visits the entries, which Go leaves unspecified, so statements
  about a limiter are made for every order of the list.
\<close>

record bucket =
  tokens :: float64
  last_refill :: time
  accessed :: time

record RateLimiter =
  buckets :: "(string \<times> bucket) list"
  ratePerMin :: int
  maxBuckets :: int
  lastCleanup :: time

text \<open>\<open>NewRateLimiter\<close>, with the reading of \<open>time.Now()\<close> as second argument.\<close>

definition NewRateLimiter :: "int \<Rightarrow> time \<Rightarrow> RateLimiter" where
  "NewRateLimiter rate now =
     \<lparr>buckets = [],
      ratePerMin = (if rate \<le> 0 then 600 else rate),
      maxBuckets = defaultMaxBuckets,
      lastCleanup = now\<rparr>"

text \<open>\<open>cleanupStaleBuckets\<close>: every bucket accessed before the threshold is deleted.\<close>

definition cleanupStaleBuckets :: "time \<Rightarrow> RateLimiter \<Rightarrow> RateLimiter" where
  "cleanupStaleBuckets now rl =
     (let threshold = Add now (- bucketInactiveThreshold)
      in rl\<lparr>buckets := filter (\<lambda>(key, b). \<not> Before (accessed b) threshold) (buckets rl)\<rparr>)"

text \<open>
  The loop of \<open>evictOldestBucket\<close> over the entries, with its three variables
  \<open>oldestKey\<close>, \<open>oldestTime\<close> and \<open>first\<close>.
\<close>

fun evict_scan :: "(string \<times> bucket) list \<Rightarrow> string \<Rightarrow> time \<Rightarrow> bool \<Rightarrow> string \<times> time \<times> bool" where
  "evict_scan [] oldestKey oldestTime first = (oldestKey, oldestTime, first)"
| "evict_scan ((key, b) # rest) oldestKey oldestTime first =
     (if first \<or> Before (accessed b) oldestTime
      then evict_scan rest key (accessed b) False
      else evict_scan rest oldestKey oldestTime first)"

text \<open>
  \<open>evictOldestBucket\<close> returns whether it deleted a bucket, and the limiter afterwards.
  The variables start as the empty string, the zero time and \<open>true\<close>.
\<close>

definition evictOldestBucket :: "time \<Rightarrow> RateLimiter \<Rightarrow> bool \<times> RateLimiter" where
  "evictOldestBucket now rl =
     (case evict_scan (buckets rl) [] 0 True of
        (oldestKey, oldestTime, first) \<Rightarrow>
          if oldestKey \<noteq> []
          then (True, rl\<lparr>buckets := AList.delete oldestKey (buckets rl)\<rparr>)
          else (False, rl))"

subsection \<open>The admission check\<close>

text \<open>The first step of \<open>take\<close>: the periodic cleanup of inactive buckets.\<close>

definition take_cleanup :: "time \<Rightarrow> RateLimiter \<Rightarrow> RateLimiter" where
  "take_cleanup now rl =
     (if bucketCleanupInterval < Sub now (lastCleanup rl)
      then (cleanupStaleBuckets now rl)\<lparr>lastCleanup := now\<rparr>
      else rl)"

text \<open>The integer burst \<open>rate / 2\<close>, at least 1, with Go's truncating division.\<close>

definition dynBurst :: "int \<Rightarrow> int" where
  "dynBurst rate = (let d = rate sdiv 2 in if d < 1 then 1 else d)"

text \<open>The bucket that \<open>take\<close> creates for a key it has not seen.\<close>

definition newBucket :: "int \<Rightarrow> time \<Rightarrow> bucket" where
  "newBucket rate now =
     \<lparr>tokens = f64_of_int (dynBurst rate), last_refill = now, accessed = now\<rparr>"

text \<open>
  The access time is updated and the bucket is refilled from the time elapsed since its
  last refill. The result is the bucket at the moment of the decision.
\<close>

definition refill :: "time \<Rightarrow> int \<Rightarrow> bucket \<Rightarrow> bucket" where
  "refill now rate b0 =
     (let b = b0\<lparr>accessed := now\<rparr>;
          elapsed = Minutes (Sub now (last_refill b))
      in if 0 < elapsed
         then
           (let t = f64_add (tokens b) (f64_mul elapsed (f64_of_int rate));
                m = f64_of_int (rate sdiv 2);
                maxTokens = (if m < 1 then 1 else m);
                t' = (if maxTokens < t then maxTokens else t)
            in b\<lparr>tokens := t', last_refill := now\<rparr>)
         else b)"

text \<open>
  The retry time of a rejected request, from the token count \<open>tok\<close> at the decision.
  Dividing the deficit by a zero rate gives a value that is not finite.
\<close>

definition retryAfter :: "int \<Rightarrow> float64 \<Rightarrow> int \<Rightarrow> duration" where
  "retryAfter oor tok rate =
     (let deficit = f64_sub 1 tok;
          minutes = (if f64_of_int rate = 0 then None
                     else Some (f64_div deficit (f64_of_int rate)));
          retry = toDuration oor (map_option (\<lambda>m. f64_mul m 60000000000) minutes)
      in if retry < Second then Second else retry)"

text \<open>
  The part of \<open>take\<close> after the bucket \<open>b\<close> of the key has been found or created: touch,
  refill, decision. The bucket is held by pointer in the map, so the map sees every
  change made to it.
\<close>

definition admit :: "int \<Rightarrow> time \<Rightarrow> string \<Rightarrow> int \<Rightarrow> bucket \<Rightarrow> RateLimiter \<Rightarrow> bool \<times> duration \<times> RateLimiter" where
  "admit oor now key rate b rl =
     (let b1 = refill now rate b
      in if 1 \<le> tokens b1
         then (True, 0,
               rl\<lparr>buckets := AList.update key (b1\<lparr>tokens := f64_sub (tokens b1) 1\<rparr>) (buckets rl)\<rparr>)
         else (False, retryAfter oor (tokens b1) rate,
               rl\<lparr>buckets := AList.update key b1 (buckets rl)\<rparr>))"

text \<open>
  The part of \<open>take\<close> from the lookup of the key to the return: get or create the
  bucket, evicting when the map is full, then decide.
\<close>

definition take_lookup :: "int \<Rightarrow> time \<Rightarrow> string \<Rightarrow> int \<Rightarrow> RateLimiter \<Rightarrow> bool \<times> duration \<times> RateLimiter" where
  "take_lookup oor now key rate rl =
     (case map_of (buckets rl) key of
        Some b \<Rightarrow> admit oor now key rate b rl
      | None \<Rightarrow>
          if maxBuckets rl \<le> int (length (buckets rl))
          then (case evictOldestBucket now rl of
                  (False, rl') \<Rightarrow> (False, Minute, rl')
                | (True, rl') \<Rightarrow> admit oor now key rate (newBucket rate now) rl')
          else admit oor now key rate (newBucket rate now) rl)"

text \<open>
  \<open>RateLimiter.take\<close>, named \<open>take_rl\<close> here. The arguments \<open>oor\<close> and \<open>now\<close> are the
  platform's result of an out-of-range conversion and the reading of \<open>time.Now()\<close>. The
  result is \<open>allowed\<close>, \<open>retryAfter\<close> and the limiter after the call.
\<close>

definition take_rl :: "int \<Rightarrow> time \<Rightarrow> string \<Rightarrow> int \<Rightarrow> RateLimiter \<Rightarrow> bool \<times> duration \<times> RateLimiter" where
  "take_rl oor now key rate rl = take_lookup oor now key rate (take_cleanup now rl)"

text \<open>
  The token count of the key's bucket at the decision (after the refill, before a token
  is consumed) of a call that reaches the decision; \<open>None\<close> for a call that is rejected
  because no bucket could be evicted.
\<close>

definition decision_tokens :: "time \<Rightarrow> string \<Rightarrow> int \<Rightarrow> RateLimiter \<Rightarrow> float64 option" where
  "decision_tokens now key rate rl0 =
     (let rl = take_cleanup now rl0
      in case map_of (buckets rl) key of
           Some b \<Rightarrow> Some (tokens (refill now rate b))
         | None \<Rightarrow>
             if maxBuckets rl \<le> int (length (buckets rl)) \<and> \<not> fst (evictOldestBucket now rl)
             then None
             else Some (tokens (refill now rate (newBucket rate now))))"

text \<open>
  A sequence of calls, each a triple of clock reading, key and rate: the limiter after
  the calls, and the list of their answers.
\<close>

fun run :: "int \<Rightarrow> RateLimiter \<Rightarrow> (time \<times> string \<times> int) list \<Rightarrow> RateLimiter" where
  "run oor rl [] = rl"
| "run oor rl ((now, key, rate) # cs) = run oor (snd (snd (take_rl oor now key rate rl))) cs"

fun answers :: "int \<Rightarrow> RateLimiter \<Rightarrow> (time \<times> string \<times> int) list \<Rightarrow> (bool \<times> duration) list" where
  "answers oor rl [] = []"
| "answers oor rl ((now, key, rate) # cs) =
     (case take_rl oor now key rate rl of
        (allowed, retry, rl') \<Rightarrow> (allowed, retry) # answers oor rl' cs)"

subsection \<open>Invariants\<close>

text \<open>A Go map holds one entry per key.\<close>

definition distinct_keys :: "RateLimiter \<Rightarrow> bool" where
  "distinct_keys rl = distinct (map fst (buckets rl))"

text \<open>
  Every bucket holds between zero and the burst capacity of its key's rate, when
  \<open>rho\<close> gives the rate that the calls for a key pass.
\<close>

definition tokens_within :: "(string \<Rightarrow> int) \<Rightarrow> RateLimiter \<Rightarrow> bool" where
  "tokens_within rho rl =
     list_all (\<lambda>(k, b). 0 \<le> tokens b \<and> tokens b \<le> f64_of_int (dynBurst (rho k))) (buckets rl)"

section \<open>Properties\<close>

subsection \<open>Rounding to float64\<close>

text \<open>
  The exponent computed by \<open>expo\<close> brackets the value, rounding is monotone and
  idempotent, and the integers up to \<open>2^53\<close> in magnitude are representable.
\<close>

lemma bitlen_powi_bounds:
  fixes p :: int
  assumes "0 < p"
  shows "(2::rat) powi (bitlen p - 1) \<le> of_int p" and "of_int p < (2::rat) powi (bitlen p)"
proof -
  from bitlen_bounds[OF assms] have lo: "2 ^ nat (bitlen p - 1) \<le> p" and hi: "p < 2 ^ nat (bitlen p)"
    by auto
  have b1: "1 \<le> bitlen p" using assms by (auto simp: bitlen_alt_def)
  have "(of_int (2 ^ nat (bitlen p - 1)) :: rat) \<le> of_int p" using lo by (rule of_int_le_iff[THEN iffD2])
  then show "(2::rat) powi (bitlen p - 1) \<le> of_int p" using b1 by (simp add: power_int_def)
  have "(of_int p :: rat) < of_int (2 ^ nat (bitlen p))" using hi by (rule of_int_less_iff[THEN iffD2])
  then show "of_int p < (2::rat) powi (bitlen p)" using b1 by (simp add: power_int_def)
qed

lemma powi2_pos: "0 < (2::rat) powi e"
  by (simp add: power_int_def)

lemma powi2_mono: "a \<le> b \<Longrightarrow> (2::rat) powi a \<le> 2 powi b"
  by (rule power_int_increasing) simp_all

lemma powi2_strict_mono: "a < b \<Longrightarrow> (2::rat) powi a < 2 powi b"
  by (rule power_int_strict_increasing) simp_all

lemma expo_bounds:
  assumes "x \<noteq> 0"
  shows "2 powi (expo x) \<le> \<bar>x\<bar> \<and> \<bar>x\<bar> < 2 powi (expo x + 1)"
proof -
  obtain p q where pq: "quotient_of \<bar>x\<bar> = (p, q)" by (cases "quotient_of \<bar>x\<bar>")
  have q: "0 < q" using pq by (rule quotient_of_denom_pos)
  have x: "\<bar>x\<bar> = of_int p / of_int q" using pq by (rule quotient_of_div)
  have xpos: "0 < \<bar>x\<bar>" using assms by simp
  have p: "0 < p" using xpos q x by (simp add: zero_less_divide_iff)
  let ?d = "bitlen p - bitlen q"
  note bp = bitlen_powi_bounds[OF p] and bq = bitlen_powi_bounds[OF q]
  have q': "(0::rat) < of_int q" using q by simp
  have up: "\<bar>x\<bar> < 2 powi (?d + 1)"
  proof -
    have "of_int p < (2::rat) powi (bitlen p)" by (rule bp)
    also have "\<dots> = 2 powi (?d + 1) * 2 powi (bitlen q - 1)"
      by (simp add: power_int_add[symmetric])
    also have "\<dots> \<le> 2 powi (?d + 1) * of_int q"
      using bq(1) powi2_pos[of "?d + 1"] by (simp add: mult_left_mono)
    finally show ?thesis using q' by (simp add: x pos_divide_less_eq)
  qed
  have lo: "2 powi (?d - 1) < \<bar>x\<bar>"
  proof -
    have "(2::rat) powi (?d - 1) * of_int q < 2 powi (?d - 1) * 2 powi (bitlen q)"
      using bq(2) powi2_pos[of "?d - 1"] by (simp add: mult_strict_left_mono)
    also have "\<dots> = 2 powi (bitlen p - 1)"
      by (simp add: power_int_add[symmetric])
    also have "\<dots> \<le> of_int p" by (rule bp)
    finally show ?thesis using q' by (simp add: x pos_less_divide_eq)
  qed
  show ?thesis
  proof (cases "2 powi ?d \<le> \<bar>x\<bar>")
    case True
    then have "expo x = ?d" by (simp add: expo_def pq)
    then show ?thesis using True up by simp
  next
    case False
    then have "expo x = ?d - 1" by (simp add: expo_def pq)
    then show ?thesis using False lo by simp
  qed
qed

lemma expo_unique:
  assumes "2 powi e \<le> \<bar>x\<bar>" and "\<bar>x\<bar> < 2 powi (e + 1)"
  shows "expo x = e"
proof -
  have "x \<noteq> 0"
  proof
    assume "x = 0"
    with assms(1) have "2 powi e \<le> (0::rat)" by simp
    with powi2_pos[of e] show False by linarith
  qed
  from expo_bounds[OF this] have b: "2 powi (expo x) \<le> \<bar>x\<bar>" "\<bar>x\<bar> < 2 powi (expo x + 1)" by auto
  have "\<not> expo x < e"
  proof
    assume "expo x < e"
    then have "expo x + 1 \<le> e" by simp
    from powi2_mono[OF this] b(2) assms(1) show False by simp
  qed
  moreover have "\<not> e < expo x"
  proof
    assume "e < expo x"
    then have "e + 1 \<le> expo x" by simp
    from powi2_mono[OF this] b(1) assms(2) show False by simp
  qed
  ultimately show ?thesis by simp
qed

lemma round_even_of_int: "round_even (of_int n) = n"
  by (simp add: round_even_def)

lemma round_even_mono:
  assumes "x \<le> y"
  shows "round_even x \<le> round_even y"
proof -
  have fl: "\<lfloor>x\<rfloor> \<le> \<lfloor>y\<rfloor>" using assms by (rule floor_mono)
  have rx: "round_even x \<le> \<lfloor>x\<rfloor> + 1" and ry: "\<lfloor>y\<rfloor> \<le> round_even y"
    by (simp_all add: round_even_def Let_def)
  show ?thesis
  proof (cases "\<lfloor>x\<rfloor> = \<lfloor>y\<rfloor>")
    case True
    then show ?thesis using assms by (auto simp add: round_even_def Let_def)
  next
    case False
    then have "\<lfloor>x\<rfloor> + 1 \<le> \<lfloor>y\<rfloor>" using fl by simp
    then show ?thesis using rx ry by linarith
  qed
qed


lemma powi2_split52: "(2::rat) powi e = 2 ^ 52 * 2 powi (e - 52)"
  using power_int_add[of "2::rat" 52 "e - 52"] by simp

lemma powi2_split53: "(2::rat) powi (e + 1) = 2 ^ 53 * 2 powi (e - 52)"
  using power_int_add[of "2::rat" 53 "e - 52"] by (simp add: add.commute)

lemma expo_minus: "expo (- x) = expo x"
  by (simp add: expo_def)

lemma round_f64_zero: "round_f64 0 = 0"
  by (simp add: round_f64_def)

lemma round_f64_minus: "round_f64 (- x) = - round_f64 x"
  by (simp add: round_f64_def expo_minus Let_def)

lemma mantissa_bounds:
  assumes "x \<noteq> 0"
  shows "2 ^ 52 \<le> \<bar>x\<bar> / 2 powi (expo x - 52)" and "\<bar>x\<bar> / 2 powi (expo x - 52) < 2 ^ 53"
proof -
  let ?u = "(2::rat) powi (expo x - 52)"
  have u: "0 < ?u" by (rule powi2_pos)
  from expo_bounds[OF assms] have b: "2 powi (expo x) \<le> \<bar>x\<bar>" "\<bar>x\<bar> < 2 powi (expo x + 1)" by auto
  have e1: "(2::rat) powi (expo x) = 2 ^ 52 * ?u"
    by (rule powi2_split52)
  have e2: "(2::rat) powi (expo x + 1) = 2 ^ 53 * ?u"
    by (rule powi2_split53)
  show "2 ^ 52 \<le> \<bar>x\<bar> / ?u" using b(1) u unfolding e1 by (simp add: pos_le_divide_eq)
  show "\<bar>x\<bar> / ?u < 2 ^ 53" using b(2) u unfolding e2 by (simp add: pos_divide_less_eq)
qed

lemma round_mantissa_bounds:
  assumes "x \<noteq> 0"
  shows "2 ^ 52 \<le> round_even (\<bar>x\<bar> / 2 powi (expo x - 52))"
    and "round_even (\<bar>x\<bar> / 2 powi (expo x - 52)) \<le> 2 ^ 53"
proof -
  note m = mantissa_bounds[OF assms]
  have "round_even (of_int (2 ^ 52)) \<le> round_even (\<bar>x\<bar> / 2 powi (expo x - 52))"
    using m(1) by (intro round_even_mono) simp
  then show "2 ^ 52 \<le> round_even (\<bar>x\<bar> / 2 powi (expo x - 52))"
    by (simp only: round_even_of_int)
  have "round_even (\<bar>x\<bar> / 2 powi (expo x - 52)) \<le> round_even (of_int (2 ^ 53))"
    using m(2) by (intro round_even_mono) simp
  then show "round_even (\<bar>x\<bar> / 2 powi (expo x - 52)) \<le> 2 ^ 53"
    by (simp only: round_even_of_int)
qed

lemma round_f64_pos_eq:
  "0 < x \<Longrightarrow> round_f64 x = of_int (round_even (x / 2 powi (expo x - 52))) * 2 powi (expo x - 52)"
  by (simp add: round_f64_def Let_def)

lemma round_f64_pos_bounds:
  assumes "0 < x"
  shows "2 powi (expo x) \<le> round_f64 x" and "round_f64 x \<le> 2 powi (expo x + 1)"
proof -
  let ?u = "(2::rat) powi (expo x - 52)"
  let ?r = "round_even (x / ?u)"
  have x0: "x \<noteq> 0" and ax: "\<bar>x\<bar> = x" using assms by auto
  have u: "0 < ?u" by (rule powi2_pos)
  from round_mantissa_bounds[OF x0] have r: "2 ^ 52 \<le> ?r" "?r \<le> 2 ^ 53" by (simp_all add: ax)
  have r1: "(2::rat) ^ 52 \<le> of_int ?r"
    using r(1) of_int_le_iff[of "2 ^ 52" ?r, where ?'a = rat] by simp
  have r2: "(of_int ?r :: rat) \<le> 2 ^ 53"
    using r(2) of_int_le_iff[of ?r "2 ^ 53", where ?'a = rat] by simp
  have e1: "(2::rat) powi (expo x) = 2 ^ 52 * ?u"
    by (rule powi2_split52)
  have e2: "(2::rat) powi (expo x + 1) = 2 ^ 53 * ?u"
    by (rule powi2_split53)
  show "2 powi (expo x) \<le> round_f64 x"
    unfolding e1 round_f64_pos_eq[OF assms] using r1 u by (simp add: mult_right_mono)
  show "round_f64 x \<le> 2 powi (expo x + 1)"
    unfolding e2 round_f64_pos_eq[OF assms] using r2 u by (simp add: mult_right_mono)
qed

lemma round_f64_pos: "0 < x \<Longrightarrow> 0 < round_f64 x"
  using round_f64_pos_bounds(1)[of x] powi2_pos[of "expo x"] by linarith

lemma round_f64_mono_pos:
  assumes "0 < x" and "x \<le> y"
  shows "round_f64 x \<le> round_f64 y"
proof -
  have y: "0 < y" using assms by simp
  have x0: "x \<noteq> 0" and y0: "y \<noteq> 0" using assms by auto
  from expo_bounds[OF x0] expo_bounds[OF y0] assms
  have bx: "2 powi (expo x) \<le> x" and byy: "y < 2 powi (expo y + 1)" by auto
  have le: "expo x \<le> expo y"
  proof (rule ccontr)
    assume "\<not> expo x \<le> expo y"
    then have "expo y + 1 \<le> expo x" by simp
    from powi2_mono[OF this] bx byy assms(2) show False by linarith
  qed
  show ?thesis
  proof (cases "expo x = expo y")
    case True
    let ?u = "(2::rat) powi (expo y - 52)"
    have u: "0 < ?u" by (rule powi2_pos)
    have "x / ?u \<le> y / ?u" using assms(2) u by (simp add: divide_right_mono)
    then have "round_even (x / ?u) \<le> round_even (y / ?u)" by (rule round_even_mono)
    then have "(of_int (round_even (x / ?u)) :: rat) \<le> of_int (round_even (y / ?u))" by simp
    then show ?thesis
      unfolding round_f64_pos_eq[OF assms(1)] round_f64_pos_eq[OF y] True
      using u by (simp add: mult_right_mono)
  next
    case False
    then have "expo x + 1 \<le> expo y" using le by simp
    from powi2_mono[OF this] round_f64_pos_bounds(2)[OF assms(1)] round_f64_pos_bounds(1)[OF y]
    show ?thesis by linarith
  qed
qed

lemma round_f64_mono:
  assumes "x \<le> y"
  shows "round_f64 x \<le> round_f64 y"
proof -
  consider "0 < x" | "x = 0" "0 < y" | "x = 0" "y = 0" | "x < 0" "0 \<le> y" | "x < 0" "y < 0"
    using assms by linarith
  then show ?thesis
  proof cases
    case 1
    then show ?thesis using assms by (rule round_f64_mono_pos)
  next
    case 2
    then show ?thesis using round_f64_pos[of y] by (simp add: round_f64_zero)
  next
    case 3
    then show ?thesis by simp
  next
    case 4
    have "round_f64 x < 0" using round_f64_pos[of "- x"] 4(1) by (simp add: round_f64_minus)
    moreover have "0 \<le> round_f64 y"
      using round_f64_pos[of y] 4(2) by (cases "y = 0") (auto simp: round_f64_zero)
    ultimately show ?thesis by simp
  next
    case 5
    have "round_f64 (- y) \<le> round_f64 (- x)"
      using 5 assms by (intro round_f64_mono_pos) auto
    then show ?thesis by (simp add: round_f64_minus)
  qed
qed

text \<open>A value whose significand is an integer is representable: rounding returns it.\<close>

lemma round_f64_exact_pos:
  assumes "0 < x" and "x / 2 powi (expo x - 52) = of_int k"
  shows "round_f64 x = x"
proof -
  have u: "(2::rat) powi (expo x - 52) \<noteq> 0" by simp
  have "round_f64 x = of_int k * 2 powi (expo x - 52)"
    unfolding round_f64_pos_eq[OF assms(1)] assms(2) round_even_of_int ..
  also have "\<dots> = x" using assms(2)[symmetric] u by simp
  finally show ?thesis .
qed

lemma round_f64_idem_pos:
  assumes "0 < x"
  shows "round_f64 (round_f64 x) = round_f64 x"
proof -
  let ?u = "(2::rat) powi (expo x - 52)"
  let ?r = "round_even (x / ?u)"
  let ?y = "round_f64 x"
  have x0: "x \<noteq> 0" and ax: "\<bar>x\<bar> = x" using assms by auto
  have y: "0 < ?y" using assms by (rule round_f64_pos)
  have ay: "\<bar>?y\<bar> = ?y" using y by simp
  have yeq: "?y = of_int ?r * ?u" by (rule round_f64_pos_eq[OF assms])
  from round_mantissa_bounds[OF x0] have r: "2 ^ 52 \<le> ?r" "?r \<le> 2 ^ 53" by (simp_all add: ax)
  note b = round_f64_pos_bounds[OF assms]
  show ?thesis
  proof (cases "?r = 2 ^ 53")
    case True
    have "?y = 2 ^ 53 * ?u" unfolding yeq True by simp
    also have "\<dots> = 2 powi (expo x + 1)"
      by (rule powi2_split53[symmetric])
    finally have y2: "?y = 2 powi (expo x + 1)" .
    have "expo ?y = expo x + 1"
      by (rule expo_unique) (simp_all add: ay y2 powi2_strict_mono)
    then have "?y / 2 powi (expo ?y - 52) = 2 powi (expo x + 1) / 2 powi (expo x + 1 - 52)"
      using y2 by simp
    also have "\<dots> = 2 powi 52"
      using power_int_diff[of "2::rat" "expo x + 1" "expo x + 1 - 52"] by simp
    also have "\<dots> = of_int (2 ^ 52)" by simp
    finally show ?thesis by (rule round_f64_exact_pos[OF y])
  next
    case False
    then have "?r < 2 ^ 53" using r(2) by simp
    then have "(of_int ?r :: rat) < 2 ^ 53"
      using of_int_less_iff[of ?r "2 ^ 53", where ?'a = rat] by simp
    then have "?y < 2 ^ 53 * ?u" unfolding yeq using powi2_pos[of "expo x - 52"]
      by (simp add: mult_strict_right_mono)
    also have "\<dots> = 2 powi (expo x + 1)"
      by (rule powi2_split53[symmetric])
    finally have "?y < 2 powi (expo x + 1)" .
    with b(1) have "expo ?y = expo x" by (intro expo_unique) (simp_all add: ay)
    then have "?y / 2 powi (expo ?y - 52) = of_int ?r" using yeq by simp
    then show ?thesis by (rule round_f64_exact_pos[OF y])
  qed
qed

lemma round_f64_idem: "round_f64 (round_f64 x) = round_f64 x"
proof -
  consider "0 < x" | "x = 0" | "x < 0" by linarith
  then show ?thesis
  proof cases
    case 1
    then show ?thesis by (rule round_f64_idem_pos)
  next
    case 2
    then show ?thesis by (simp add: round_f64_zero)
  next
    case 3
    then have "round_f64 (round_f64 (- x)) = round_f64 (- x)" by (intro round_f64_idem_pos) simp
    then show ?thesis by (simp add: round_f64_minus)
  qed
qed

lemma round_f64_nat:
  assumes "n \<le> 2 ^ 53"
  shows "round_f64 (of_nat n) = of_nat n"
proof (cases "n = 0")
  case True
  then show ?thesis by (simp add: round_f64_zero)
next
  case False
  let ?x = "of_nat n :: rat"
  have x: "0 < ?x" using False by simp
  have ax: "\<bar>?x\<bar> = ?x" by simp
  have x0: "?x \<noteq> 0" using False by simp
  from expo_bounds[OF x0] have b: "2 powi (expo ?x) \<le> ?x" "?x < 2 powi (expo ?x + 1)"
    by (simp_all only: ax)
  have xle: "?x \<le> 2 ^ 53" using assms of_nat_le_iff[of n "2 ^ 53", where ?'a = rat] by simp
  have e53: "expo ?x \<le> 53"
  proof (rule ccontr)
    assume "\<not> expo ?x \<le> 53"
    then have "54 \<le> expo ?x" by simp
    from powi2_mono[OF this] b(1) xle show False by simp
  qed
  show ?thesis
  proof (cases "expo ?x = 53")
    case True
    then have "?x = 2 ^ 53" using b(1) xle by simp
    then have "?x / 2 powi (expo ?x - 52) = of_int (2 ^ 52)" using True by simp
    then show ?thesis by (rule round_f64_exact_pos[OF x])
  next
    case False
    then have le: "expo ?x \<le> 52" using e53 by simp
    have "(2::rat) powi (expo ?x - 52) = 1 / 2 powi (52 - expo ?x)"
      using power_int_minus_divide[of "2::rat" "52 - expo ?x"] by simp
    also have "\<dots> = 1 / 2 ^ nat (52 - expo ?x)" using le by (simp add: power_int_def)
    finally have "?x / 2 powi (expo ?x - 52) = of_int (int n * 2 ^ nat (52 - expo ?x))" by simp
    then show ?thesis by (rule round_f64_exact_pos[OF x])
  qed
qed

lemma round_f64_int:
  assumes "\<bar>n\<bar> \<le> 2 ^ 53"
  shows "round_f64 (of_int n) = of_int n"
proof (cases "0 \<le> n")
  case True
  then have "nat n \<le> 2 ^ 53" using assms by (simp add: nat_le_iff)
  from round_f64_nat[OF this] True show ?thesis by simp
next
  case False
  then have "nat (- n) \<le> 2 ^ 53" using assms by (simp add: nat_le_iff)
  from round_f64_nat[OF this] False have "round_f64 (- of_int n) = - of_int n" by simp
  then show ?thesis by (simp add: round_f64_minus)
qed

subsection \<open>Answers of a call\<close>

lemma Second_le_Minute: "Second \<le> Minute"
  by (simp add: Minute_def Second_def)

lemma retryAfter_ge_Second: "Second \<le> retryAfter oor tok rate"
  by (simp add: retryAfter_def Let_def)

lemma admit_answer:
  "(if fst (admit oor now key rate b rl) then fst (snd (admit oor now key rate b rl)) = 0
    else Second \<le> fst (snd (admit oor now key rate b rl)))"
  by (simp add: admit_def Let_def retryAfter_ge_Second)

lemma take_lookup_answer:
  "(if fst (take_lookup oor now key rate rl) then fst (snd (take_lookup oor now key rate rl)) = 0
    else Second \<le> fst (snd (take_lookup oor now key rate rl)))"
  using admit_answer Second_le_Minute
  by (auto simp add: take_lookup_def split: option.splits prod.splits bool.splits if_splits)

text \<open>
  Claim C9. Every call of \<open>take\<close> that answers \<open>allowed = false\<close> returns a
  \<open>retryAfter\<close> of at least one second, and every call that answers \<open>allowed = true\<close>
  returns \<open>retryAfter = 0\<close>. This holds for every rate, the rates \<open>rate \<le> 0\<close> included,
  for every limiter, and whatever the platform yields for a conversion out of range.
\<close>

theorem take_rl_answer:
  "(if fst (take_rl oor now key rate rl) then fst (snd (take_rl oor now key rate rl)) = 0
    else Second \<le> fst (snd (take_rl oor now key rate rl)))"
  unfolding take_rl_def by (rule take_lookup_answer)

lemma lastCleanup_admit: "lastCleanup (snd (snd (admit oor now key rate b rl))) = lastCleanup rl"
  by (simp add: admit_def Let_def)

lemma lastCleanup_evict: "lastCleanup (snd (evictOldestBucket now rl)) = lastCleanup rl"
  by (simp add: evictOldestBucket_def split: prod.splits)

lemma lastCleanup_take_lookup:
  "lastCleanup (snd (snd (take_lookup oor now key rate rl))) = lastCleanup rl"
  using lastCleanup_evict[of now rl]
  by (auto simp add: take_lookup_def lastCleanup_admit split: option.splits prod.splits bool.splits)

text \<open>
  Claim C7. When a call of \<open>take\<close> at time \<open>now\<close> finds more than five minutes elapsed
  since the last cleanup, the limiter on which the lookup and the decision work holds
  exactly the buckets that were not accessed before \<open>now\<close> minus fifteen minutes, and its
  \<open>lastCleanup\<close> is \<open>now\<close>, also after the call. The key of the call plays no role in
  which buckets the sweep removes, and a bucket accessed within the threshold is kept by it.
\<close>

theorem take_sweeps_stale:
  assumes "bucketCleanupInterval < Sub now (lastCleanup rl)"
  shows "set (buckets (take_cleanup now rl)) =
           {(k, b). (k, b) \<in> set (buckets rl) \<and> \<not> accessed b < now - bucketInactiveThreshold}
         \<and> lastCleanup (take_cleanup now rl) = now
         \<and> take_rl oor now key rate rl = take_lookup oor now key rate (take_cleanup now rl)
         \<and> lastCleanup (snd (snd (take_rl oor now key rate rl))) = now"
  using assms
  by (auto simp add: take_rl_def lastCleanup_take_lookup take_cleanup_def cleanupStaleBuckets_def Add_def Before_def)

theorem take_sweeps_stale_witness:
  "bucketCleanupInterval < Sub (16 * Minute) (lastCleanup (run 0 (NewRateLimiter 60 0) [(0, ''a'', 60), (2 * Minute, ''b'', 60)]))
   \<and> map fst (buckets (take_cleanup (16 * Minute) (run 0 (NewRateLimiter 60 0) [(0, ''a'', 60), (2 * Minute, ''b'', 60)]))) = [''b'']
   \<and> lastCleanup (snd (snd (take_rl 0 (16 * Minute) ''c'' 60 (run 0 (NewRateLimiter 60 0) [(0, ''a'', 60), (2 * Minute, ''b'', 60)])))) = 16 * Minute"
proof -
  have h: "bucketCleanupInterval < Sub (16 * Minute) (lastCleanup (run 0 (NewRateLimiter 60 0) [(0, ''a'', 60), (2 * Minute, ''b'', 60)]))"
    by code_simp
  have e: "map fst (buckets (take_cleanup (16 * Minute) (run 0 (NewRateLimiter 60 0) [(0, ''a'', 60), (2 * Minute, ''b'', 60)]))) = [''b'']"
    by code_simp
  from take_sweeps_stale[OF h, of 0 "''c''" 60] h e show ?thesis by blast
qed

text \<open>
  Claim C3, at an input where the code departs from it. The map holds one bucket, under
  the empty key, and \<open>maxBuckets\<close> is 1. A call for the unseen key \<open>x\<close> scans the map,
  finds the empty key as oldest, takes the empty \<open>oldestKey\<close> for "no bucket found", and
  rejects with one minute although the map is not empty. The limiter is unchanged.
\<close>

theorem evict_fails_on_empty_key:
  "take_rl 0 1 ''x'' 60 (run 0 ((NewRateLimiter 60 0)\<lparr>maxBuckets := 1\<rparr>) [(0, [], 60)])
     = (False, Minute, run 0 ((NewRateLimiter 60 0)\<lparr>maxBuckets := 1\<rparr>) [(0, [], 60)])
   \<and> map fst (buckets (run 0 ((NewRateLimiter 60 0)\<lparr>maxBuckets := 1\<rparr>) [(0, [], 60)])) = [[]]"
  by code_simp

subsection \<open>Consequences of rounding for the limiter\<close>

lemma f64_of_int_zero: "f64_of_int 0 = 0"
  by (simp add: f64_of_int_def round_f64_zero)

lemma f64_of_int_one: "f64_of_int 1 = 1"
  using round_f64_int[of 1] by (simp add: f64_of_int_def)

lemma f64_of_int_mono: "m \<le> n \<Longrightarrow> f64_of_int m \<le> f64_of_int n"
  by (simp add: f64_of_int_def round_f64_mono)

lemma f64_of_int_exact: "\<bar>n\<bar> \<le> 2 ^ 53 \<Longrightarrow> f64_of_int n = of_int n"
  by (simp add: f64_of_int_def round_f64_int)

lemma round_f64_eq_zero: "round_f64 x = 0 \<longleftrightarrow> x = 0"
proof
  assume r: "round_f64 x = 0"
  show "x = 0"
  proof (rule ccontr)
    assume "x \<noteq> 0"
    then consider "0 < x" | "0 < - x" by linarith
    then show False
    proof cases
      case 1
      from round_f64_pos[OF this] r show False by simp
    next
      case 2
      from round_f64_pos[OF this] r show False by (simp add: round_f64_minus)
    qed
  qed
qed (simp add: round_f64_zero)

lemma round_f64_nonneg: "0 \<le> x \<Longrightarrow> 0 \<le> round_f64 x"
  using round_f64_mono[of 0 x] by (simp add: round_f64_zero)

lemma f64_of_int_eq_zero: "f64_of_int n = 0 \<longleftrightarrow> n = 0"
  by (simp add: f64_of_int_def round_f64_eq_zero)

lemma dynBurst_ge_1: "1 \<le> dynBurst rate"
  by (simp add: dynBurst_def Let_def)

lemma dynBurst_eq: "dynBurst rate = max 1 (rate sdiv 2)"
  by (simp add: dynBurst_def Let_def max_def)

lemma newBucket_tokens_ge_1: "1 \<le> tokens (newBucket rate now)"
  using f64_of_int_mono[OF dynBurst_ge_1[of rate]] by (simp add: newBucket_def f64_of_int_one)

lemma Sub_same: "Sub now now = 0"
  by (simp add: Sub_def maxDuration_def minDuration_def)

lemma Minutes_zero: "Minutes 0 = 0"
  by (simp add: Minutes_def f64_add_def f64_div_def f64_of_int_zero round_f64_zero)

lemma refill_same_instant: "last_refill b = now \<Longrightarrow> refill now rate b = b\<lparr>accessed := now\<rparr>"
  by (simp add: refill_def Sub_same Minutes_zero)

lemma map_of_filter_None: "map_of xs k = None \<Longrightarrow> map_of (filter P xs) k = None"
  by (induction xs) (auto split: if_splits)

lemma take_cleanup_lookup_None:
  "map_of (buckets rl) key = None \<Longrightarrow> map_of (buckets (take_cleanup now rl)) key = None"
  by (simp add: take_cleanup_def cleanupStaleBuckets_def map_of_filter_None)

lemma take_cleanup_length: "length (buckets (take_cleanup now rl)) \<le> length (buckets rl)"
  by (simp add: take_cleanup_def cleanupStaleBuckets_def)

lemma take_cleanup_maxBuckets: "maxBuckets (take_cleanup now rl) = maxBuckets rl"
  by (simp add: take_cleanup_def cleanupStaleBuckets_def)

lemma admit_newBucket_allowed: "fst (admit oor now key rate (newBucket rate now) rl)"
proof -
  have "refill now rate (newBucket rate now) = (newBucket rate now)\<lparr>accessed := now\<rparr>"
    by (rule refill_same_instant) (simp add: newBucket_def)
  then show ?thesis using newBucket_tokens_ge_1[of rate now] by (simp add: admit_def)
qed

text \<open>
  Claim C10. For every rate, the rates \<open>rate \<le> 0\<close> included, the first call of
  \<open>take\<close> for a key that has no bucket is allowed when the map holds fewer than
  \<open>maxBuckets\<close> buckets: the new bucket starts with at least one token and no time has
  elapsed since its creation.
\<close>

theorem first_take_allowed:
  assumes "map_of (buckets rl) key = None" and "int (length (buckets rl)) < maxBuckets rl"
  shows "fst (take_rl oor now key rate rl)"
proof -
  let ?rl = "take_cleanup now rl"
  have n: "map_of (buckets ?rl) key = None" using assms(1) by (rule take_cleanup_lookup_None)
  have l: "\<not> maxBuckets ?rl \<le> int (length (buckets ?rl))"
    using assms(2) take_cleanup_length[of now rl] by (simp add: take_cleanup_maxBuckets)
  show ?thesis using n l by (simp add: take_rl_def take_lookup_def admit_newBucket_allowed)
qed

theorem first_take_allowed_witness:
  "map_of (buckets (NewRateLimiter 600 0)) ''k'' = None
   \<and> int (length (buckets (NewRateLimiter 600 0))) < maxBuckets (NewRateLimiter 600 0)
   \<and> fst (take_rl 0 5 ''k'' (- 3) (NewRateLimiter 600 0))"
proof -
  have a: "map_of (buckets (NewRateLimiter 600 0)) ''k'' = None"
    by (simp add: NewRateLimiter_def)
  have b: "int (length (buckets (NewRateLimiter 600 0))) < maxBuckets (NewRateLimiter 600 0)"
    by (simp add: NewRateLimiter_def defaultMaxBuckets_def)
  from first_take_allowed[OF a b, of 0 5 "- 3"] a b show ?thesis by simp
qed

subsection \<open>Calls at one instant\<close>

lemma take_cleanup_no_sweep:
  "\<not> bucketCleanupInterval < Sub now (lastCleanup rl) \<Longrightarrow> take_cleanup now rl = rl"
  by (simp add: take_cleanup_def)

lemma take_cleanup_settled:
  "\<not> bucketCleanupInterval < Sub now (lastCleanup (take_cleanup now rl))"
  by (simp add: take_cleanup_def Sub_same bucketCleanupInterval_def Minute_def Second_def)

lemma take_rl_existing:
  assumes "\<not> bucketCleanupInterval < Sub now (lastCleanup rl)" and "map_of (buckets rl) key = Some b"
  shows "take_rl oor now key rate rl = admit oor now key rate b rl"
  using assms by (simp add: take_rl_def take_cleanup_no_sweep take_lookup_def)

lemma admit_same_instant:
  assumes "last_refill b = now"
  shows "admit oor now key rate b rl =
           (if 1 \<le> tokens b
            then (True, 0, rl\<lparr>buckets := AList.update key (b\<lparr>accessed := now, tokens := f64_sub (tokens b) 1\<rparr>) (buckets rl)\<rparr>)
            else (False, retryAfter oor (tokens b) rate, rl\<lparr>buckets := AList.update key (b\<lparr>accessed := now\<rparr>) (buckets rl)\<rparr>))"
  by (simp add: admit_def refill_same_instant[OF assms])

lemma f64_sub_nat_one: "Suc n \<le> 2 ^ 53 \<Longrightarrow> f64_sub (of_nat (Suc n)) 1 = of_nat n"
  using round_f64_nat[of n] by (simp add: f64_sub_def)

lemma drain:
  assumes "\<not> bucketCleanupInterval < Sub now (lastCleanup rl)"
    and "map_of (buckets rl) key = Some b"
    and "last_refill b = now"
    and "tokens b = of_nat n"
    and "n \<le> 2 ^ 53"
  shows "answers oor rl (replicate (Suc n) (now, key, rate)) =
           replicate n (True, 0) @ [(False, retryAfter oor 0 rate)]
         \<and> run oor rl (replicate (Suc n) (now, key, rate)) =
           rl\<lparr>buckets := AList.update key (b\<lparr>accessed := now, tokens := 0\<rparr>) (buckets rl)\<rparr>"
  using assms
proof (induction n arbitrary: rl b)
  case 0
  have e: "b\<lparr>accessed := now, tokens := 0\<rparr> = b\<lparr>accessed := now\<rparr>"
    using "0.prems"(4) by (cases b) simp
  have t: "take_rl oor now key rate rl =
             (False, retryAfter oor 0 rate, rl\<lparr>buckets := AList.update key (b\<lparr>accessed := now\<rparr>) (buckets rl)\<rparr>)"
    using "0.prems"(4)
    by (simp add: take_rl_existing[OF "0.prems"(1,2)] admit_same_instant[OF "0.prems"(3)])
  show ?case unfolding e using t by simp
next
  case (Suc n)
  let ?b' = "b\<lparr>accessed := now, tokens := f64_sub (tokens b) 1\<rparr>"
  let ?rl' = "rl\<lparr>buckets := AList.update key ?b' (buckets rl)\<rparr>"
  have t: "take_rl oor now key rate rl = (True, 0, ?rl')"
    using Suc.prems(4)
    by (simp add: take_rl_existing[OF Suc.prems(1,2)] admit_same_instant[OF Suc.prems(3)])
  have ih: "answers oor ?rl' (replicate (Suc n) (now, key, rate)) =
              replicate n (True, 0) @ [(False, retryAfter oor 0 rate)]
            \<and> run oor ?rl' (replicate (Suc n) (now, key, rate)) =
              ?rl'\<lparr>buckets := AList.update key (?b'\<lparr>accessed := now, tokens := 0\<rparr>) (buckets ?rl')\<rparr>"
  proof (rule Suc.IH)
    show "\<not> bucketCleanupInterval < Sub now (lastCleanup ?rl')" using Suc.prems(1) by simp
    show "map_of (buckets ?rl') key = Some ?b'" by (simp add: update_conv')
    show "last_refill ?b' = now" using Suc.prems(3) by simp
    show "tokens ?b' = of_nat n" using Suc.prems(4,5) f64_sub_nat_one[of n] by simp
    show "n \<le> 2 ^ 53" using Suc.prems(5) by simp
  qed
  have a: "answers oor rl (replicate (Suc (Suc n)) (now, key, rate)) =
          (True, 0) # answers oor ?rl' (replicate (Suc n) (now, key, rate))"
    using t by simp
  have r: "run oor rl (replicate (Suc (Suc n)) (now, key, rate)) =
          run oor ?rl' (replicate (Suc n) (now, key, rate))"
    using t by simp
  show ?case unfolding a r using ih by simp
qed

lemma answers_append:
  "answers oor rl (xs @ ys) = answers oor rl xs @ answers oor (run oor rl xs) ys"
  by (induction xs arbitrary: rl) (auto split: prod.splits)

subsection \<open>Burst after creation\<close>

lemma evict_False_state: "evictOldestBucket now rl = (False, rl') \<Longrightarrow> rl' = rl"
  by (auto simp add: evictOldestBucket_def split: prod.splits if_splits)

lemma take_lookup_unseen:
  assumes "map_of (buckets rl) key = None"
  shows "take_lookup oor now key rate rl = (False, Minute, rl)
         \<or> (\<exists>rl'. lastCleanup rl' = lastCleanup rl
                \<and> take_lookup oor now key rate rl = admit oor now key rate (newBucket rate now) rl')"
proof (cases "maxBuckets rl \<le> int (length (buckets rl))")
  case False
  then show ?thesis using assms by (auto simp add: take_lookup_def)
next
  case True
  obtain ok rl' where e: "evictOldestBucket now rl = (ok, rl')" by (cases "evictOldestBucket now rl")
  show ?thesis
  proof (cases ok)
    case False
    with e have "rl' = rl" by (simp add: evict_False_state)
    then show ?thesis using assms True e False by (simp add: take_lookup_def)
  next
    case ok: True
    have "lastCleanup rl' = lastCleanup rl" using lastCleanup_evict[of now rl] e by simp
    then show ?thesis using assms True e ok by (auto simp add: take_lookup_def)
  qed
qed

text \<open>
  Claim C5, amended. A call of \<open>take\<close> with rate \<open>r\<close> creates the bucket of an unseen
  key, and the burst \<open>max(1, r/2)\<close> is at most \<open>2^53\<close>. Then of the calls for that key
  at the same instant, the creating call included, exactly \<open>max(1, r/2)\<close> are allowed,
  and the next one is rejected.
\<close>

theorem burst_allowance:
  assumes "map_of (buckets rl) key = None"
    and "map_of (buckets (snd (snd (take_rl oor now key rate rl)))) key \<noteq> None"
    and "dynBurst rate \<le> 2 ^ 53"
  shows "answers oor rl (replicate (Suc (nat (dynBurst rate))) (now, key, rate)) =
           replicate (nat (dynBurst rate)) (True, 0) @ [(False, retryAfter oor 0 rate)]"
proof -
  let ?rl1 = "take_cleanup now rl"
  let ?N = "nat (dynBurst rate)"
  have n1: "map_of (buckets ?rl1) key = None" using assms(1) by (rule take_cleanup_lookup_None)
  have "take_rl oor now key rate rl \<noteq> (False, Minute, ?rl1)"
    using assms(2) n1 by auto
  with take_lookup_unseen[OF n1, of oor now rate]
  obtain rl2 where c: "lastCleanup rl2 = lastCleanup ?rl1"
    and t: "take_rl oor now key rate rl = admit oor now key rate (newBucket rate now) rl2"
    by (auto simp add: take_rl_def)
  have N: "0 < ?N" using dynBurst_ge_1[of rate] by simp
  have tok: "tokens (newBucket rate now) = of_nat ?N"
    using assms(3) dynBurst_ge_1[of rate] by (simp add: newBucket_def f64_of_int_exact)
  let ?b = "(newBucket rate now)\<lparr>accessed := now, tokens := f64_sub (tokens (newBucket rate now)) 1\<rparr>"
  let ?rl3 = "rl2\<lparr>buckets := AList.update key ?b (buckets rl2)\<rparr>"
  have lr: "last_refill (newBucket rate now) = now" by (simp add: newBucket_def)
  have t': "take_rl oor now key rate rl = (True, 0, ?rl3)"
    unfolding t admit_same_instant[OF lr] using newBucket_tokens_ge_1[of rate now] by simp
  obtain m where m: "?N = Suc m" using N by (cases ?N) auto
  have mle: "Suc m \<le> 2 ^ 53"
  proof -
    have "int ?N \<le> 2 ^ 53" using assms(3) dynBurst_ge_1[of rate] by simp
    then show ?thesis unfolding m by (metis of_nat_le_iff of_nat_numeral of_nat_power)
  qed
  have d: "answers oor ?rl3 (replicate (Suc m) (now, key, rate)) =
             replicate m (True, 0) @ [(False, retryAfter oor 0 rate)]"
  proof (rule drain[THEN conjunct1])
    show "\<not> bucketCleanupInterval < Sub now (lastCleanup ?rl3)"
      using c take_cleanup_settled[of now rl] by simp
    show "map_of (buckets ?rl3) key = Some ?b" by (simp add: update_conv')
    show "last_refill ?b = now" by (simp add: newBucket_def)
    show "tokens ?b = of_nat m" using tok f64_sub_nat_one[OF mle] by (simp add: m)
    show "m \<le> 2 ^ 53" using mle by simp
  qed
  have "answers oor rl (replicate (Suc ?N) (now, key, rate)) =
          (True, 0) # answers oor ?rl3 (replicate ?N (now, key, rate))"
    using t' by simp
  also have "\<dots> = (True, 0) # replicate m (True, 0) @ [(False, retryAfter oor 0 rate)]"
    using d by (simp only: m)
  finally show ?thesis by (simp add: m)
qed

theorem burst_allowance_witness:
  "map_of (buckets (NewRateLimiter 600 0)) ''a'' = None
   \<and> map_of (buckets (snd (snd (take_rl 0 0 ''a'' 7 (NewRateLimiter 600 0))))) ''a'' \<noteq> None
   \<and> dynBurst 7 \<le> 2 ^ 53
   \<and> answers 0 (NewRateLimiter 600 0) (replicate (Suc (nat (dynBurst 7))) (0, ''a'', 7)) =
        [(True, 0), (True, 0), (True, 0), (False, 8571428571)]"
proof -
  have a: "map_of (buckets (NewRateLimiter 600 0)) ''a'' = None" by code_simp
  have b: "map_of (buckets (snd (snd (take_rl 0 0 ''a'' 7 (NewRateLimiter 600 0))))) ''a'' \<noteq> None"
    by code_simp
  have c: "dynBurst 7 \<le> 2 ^ 53" by code_simp
  have d: "replicate (nat (dynBurst 7)) (True, 0 :: int) @ [(False, retryAfter 0 0 7)] =
             [(True, 0), (True, 0), (True, 0), (False, 8571428571)]"
    by code_simp
  from burst_allowance[OF a b c] a b c d show ?thesis by simp
qed

lemma take_rl_stuck:
  assumes "\<not> bucketCleanupInterval < Sub now (lastCleanup rl)"
    and "map_of (buckets rl) key = Some b"
    and "last_refill b = now" and "accessed b = now"
    and "1 \<le> tokens b" and "f64_sub (tokens b) 1 = tokens b"
  shows "take_rl oor now key rate rl = (True, 0, rl)"
proof -
  have "b\<lparr>accessed := now, tokens := f64_sub (tokens b) 1\<rparr> = b"
    using assms(4,6) by simp
  then show ?thesis
    using assms(5) update_triv[OF assms(2)]
    by (simp add: take_rl_existing[OF assms(1,2)] admit_same_instant[OF assms(3)])
qed

lemma answers_stuck:
  assumes "\<not> bucketCleanupInterval < Sub now (lastCleanup rl)"
    and "map_of (buckets rl) key = Some b"
    and "last_refill b = now" and "accessed b = now"
    and "1 \<le> tokens b" and "f64_sub (tokens b) 1 = tokens b"
  shows "answers oor rl (replicate n (now, key, rate)) = replicate n (True, 0)"
  by (induction n) (simp_all add: take_rl_stuck[OF assms])

text \<open>
  Claim C5 as stated fails for a burst above \<open>2^53\<close>. With rate \<open>2^55\<close> the bucket
  starts at \<open>2^54\<close> tokens, and \<open>2^54 - 1\<close> rounds back to \<open>2^54\<close> in float64: the
  token count never decreases, and the call after the first \<open>2^54\<close> is allowed as well.
\<close>

theorem burst_allowance_counterexample:
  "dynBurst (2 ^ 55) = 2 ^ 54
   \<and> answers 0 (NewRateLimiter 600 0) (replicate (Suc (2 ^ 54)) (0, ''a'', 2 ^ 55)) =
       replicate (Suc (2 ^ 54)) (True, 0)"
proof -
  let ?b = "\<lparr>tokens = 2 ^ 54, last_refill = 0, accessed = 0\<rparr>"
  let ?rl = "\<lparr>buckets = [(''a'', ?b)], ratePerMin = 600, maxBuckets = 10000, lastCleanup = 0\<rparr>"
  have d: "dynBurst (2 ^ 55) = 2 ^ 54" by code_simp
  have t: "take_rl 0 0 ''a'' (2 ^ 55) (NewRateLimiter 600 0) = (True, 0, ?rl)"
    by code_simp
  have s: "answers 0 ?rl (replicate (2 ^ 54) (0, ''a'', 2 ^ 55)) = replicate (2 ^ 54) (True, 0)"
  proof (rule answers_stuck)
    show "\<not> bucketCleanupInterval < Sub 0 (lastCleanup ?rl)" by code_simp
    show "map_of (buckets ?rl) ''a'' = Some ?b" by simp
    show "last_refill ?b = 0" "accessed ?b = 0" by simp_all
    show "1 \<le> tokens ?b" by simp
    show "f64_sub (tokens ?b) 1 = tokens ?b" by code_simp
  qed
  have "answers 0 (NewRateLimiter 600 0) (replicate (Suc (2 ^ 54)) (0, ''a'', 2 ^ 55)) =
          (True, 0) # answers 0 ?rl (replicate (2 ^ 54) (0, ''a'', 2 ^ 55))"
    unfolding replicate_Suc answers.simps t by simp
  then show ?thesis using d s by (simp only: replicate_Suc simp_thms)
qed

subsection \<open>The scenario of 60 requests per minute\<close>

lemma retryAfter_0_60: "retryAfter oor 0 60 = Second"
proof -
  have v: "f64_mul (f64_div (f64_sub 1 0) (f64_of_int 60)) 60000000000 = 1000000000"
    by code_simp
  have z: "f64_of_int 60 \<noteq> 0" by (simp add: f64_of_int_eq_zero)
  show ?thesis
    by (simp add: retryAfter_def z v toDuration_def trunc_def Second_def minDuration_def maxDuration_def)
qed

lemma refill_after_minute:
  assumes "last_refill b = t0" and "tokens b = 0"
  shows "refill (t0 + Minute) 60 b = b\<lparr>accessed := t0 + Minute, tokens := 30, last_refill := t0 + Minute\<rparr>"
proof -
  have s: "Sub (t0 + Minute) t0 = Minute"
    by (simp add: Sub_def Minute_def Second_def maxDuration_def minDuration_def)
  have m: "Minutes Minute = 1" by code_simp
  have a: "f64_add 0 (f64_mul 1 (f64_of_int 60)) = 60" by code_simp
  have c: "f64_of_int 30 = 30" by code_simp
  show ?thesis using assms by (simp add: refill_def s m a c Let_def)
qed

lemma scenario_answers:
  "answers oor (NewRateLimiter 60 t0) (replicate 31 (t0, key, 60) @ replicate 31 (t0 + Minute, key, 60)) =
     replicate 30 (True, 0) @ [(False, Second)] @ replicate 30 (True, 0) @ [(False, Second)]"
proof -
  let ?c1 = "(t0, key, 60 :: int)" and ?c2 = "(t0 + Minute, key, 60 :: int)"
  let ?S0 = "NewRateLimiter 60 t0"
  let ?b1 = "\<lparr>tokens = 29, last_refill = t0, accessed = t0\<rparr>"
  let ?S1 = "?S0\<lparr>buckets := [(key, ?b1)]\<rparr>"
  let ?b2 = "\<lparr>tokens = 0, last_refill = t0, accessed = t0\<rparr>"
  let ?S2 = "?S0\<lparr>buckets := [(key, ?b2)]\<rparr>"
  let ?b3 = "\<lparr>tokens = 29, last_refill = t0 + Minute, accessed = t0 + Minute\<rparr>"
  let ?S3 = "?S0\<lparr>buckets := [(key, ?b3)]\<rparr>"
  have d60: "dynBurst 60 = 30" by code_simp
  have s29: "f64_sub 30 1 = 29" by code_simp
  have f30: "f64_of_int 30 = 30" by code_simp
  have r31: "\<And>c :: time \<times> string \<times> int. replicate 31 c = c # replicate (Suc 29) c"
    using replicate_Suc[of 30] by simp
  have r30: "replicate 30 (True, 0 :: int) = (True, 0) # replicate 29 (True, 0)"
    using replicate_Suc[of 29 "(True, 0 :: int)"] by simp
  have ns0: "\<not> bucketCleanupInterval < Sub t0 (lastCleanup ?S0)"
    by (simp add: NewRateLimiter_def Sub_same bucketCleanupInterval_def Minute_def Second_def)
  have ns1: "\<not> bucketCleanupInterval < Sub (t0 + Minute) (lastCleanup ?S0)"
    by (simp add: NewRateLimiter_def Sub_def bucketCleanupInterval_def Minute_def Second_def
        maxDuration_def minDuration_def)
  have t1: "take_rl oor t0 key 60 ?S0 = (True, 0, ?S1)"
  proof -
    have "take_rl oor t0 key 60 ?S0 = admit oor t0 key 60 (newBucket 60 t0) ?S0"
      using ns0 by (simp add: take_rl_def take_cleanup_no_sweep take_lookup_def NewRateLimiter_def
          defaultMaxBuckets_def)
    also have "\<dots> = (True, 0, ?S1)"
      by (subst admit_same_instant) (simp_all add: newBucket_def d60 f30 s29 NewRateLimiter_def)
    finally show ?thesis .
  qed
  have p1: "answers oor ?S1 (replicate (Suc 29) ?c1) = replicate 29 (True, 0) @ [(False, Second)]
            \<and> run oor ?S1 (replicate (Suc 29) ?c1) = ?S2"
    using drain[of t0 ?S1 key ?b1 29 oor 60] ns0 by (simp add: retryAfter_0_60)
  have t2: "take_rl oor (t0 + Minute) key 60 ?S2 = (True, 0, ?S3)"
  proof -
    have "take_rl oor (t0 + Minute) key 60 ?S2 = admit oor (t0 + Minute) key 60 ?b2 ?S2"
      using ns1 by (intro take_rl_existing) simp_all
    also have "\<dots> = (True, 0, ?S3)"
      by (simp add: admit_def refill_after_minute[of ?b2 t0] s29)
    finally show ?thesis .
  qed
  have p2: "answers oor ?S3 (replicate (Suc 29) ?c2) = replicate 29 (True, 0) @ [(False, Second)]"
    using drain[of "t0 + Minute" ?S3 key ?b3 29 oor 60] ns1 by (simp add: retryAfter_0_60)
  have a1: "answers oor ?S0 (replicate 31 ?c1) = replicate 30 (True, 0) @ [(False, Second)]"
    unfolding r31 using t1 p1 by (simp add: r30)
  have r1: "run oor ?S0 (replicate 31 ?c1) = ?S2"
    unfolding r31 using t1 p1 by simp
  have a2: "answers oor ?S2 (replicate 31 ?c2) = replicate 30 (True, 0) @ [(False, Second)]"
    unfolding r31 using t2 p2 by (simp add: r30)
  show ?thesis unfolding answers_append a1 r1 a2 by simp
qed

text \<open>
  Claim C1, amended. With rate 60 per minute, on a new limiter, the first 30 calls for
  one key at the same instant are allowed and the 31st is rejected with a \<open>retryAfter\<close>
  of one second. One minute later, with no call in between, exactly 30 further calls are
  allowed, and the next is rejected: the refill is capped at the burst of 30.
\<close>

theorem scenario_60_per_minute:
  "answers oor (NewRateLimiter 60 t0) (replicate 31 (t0, key, 60) @ replicate 31 (t0 + Minute, key, 60)) =
     replicate 30 (True, 0) @ [(False, Second)] @ replicate 30 (True, 0) @ [(False, Second)]"
  by (rule scenario_answers)

text \<open>
  Claim C1 as stated fails: of the 60 calls made one minute later, the 31st (the call at
  index 61 of the whole sequence) is rejected.
\<close>

theorem scenario_60_per_minute_counterexample:
  "\<not> fst (answers 0 (NewRateLimiter 60 0)
            (replicate 31 (0, ''a'', 60) @ replicate 60 (Minute, ''a'', 60)) ! 61)"
proof -
  have r: "replicate 60 (Minute, ''a'', 60 :: int) = replicate 31 (0 + Minute, ''a'', 60) @ replicate 29 (Minute, ''a'', 60)"
    by (simp add: replicate_add[symmetric])
  have "answers 0 (NewRateLimiter 60 0) (replicate 31 (0, ''a'', 60) @ replicate 31 (0 + Minute, ''a'', 60)) =
     replicate 30 (True, 0) @ [(False, Second)] @ replicate 30 (True, 0) @ [(False, Second)]"
    by (rule scenario_answers)
  then show ?thesis unfolding r append_assoc[symmetric] answers_append[of _ _ "_ @ _"]
    by (simp add: nth_append)
qed

subsection \<open>Bounds on the token count\<close>

lemma set_update_cases:
  "x \<in> set (AList.update k v al) \<Longrightarrow> x = (k, v) \<or> x \<in> set al"
  by (induction al) (auto split: if_splits)

lemma set_delete_subset: "set (AList.delete k al) \<subseteq> set al"
  by (auto simp add: AList.delete_eq)

lemma burst_cap_ge_1: "1 \<le> f64_of_int (dynBurst rate)"
  using f64_of_int_mono[OF dynBurst_ge_1[of rate]] by (simp add: f64_of_int_one)

lemma burst_cap_fixed: "round_f64 (f64_of_int (dynBurst rate)) = f64_of_int (dynBurst rate)"
  by (simp add: f64_of_int_def round_f64_idem)

lemma maxTokens_eq:
  "(if f64_of_int (rate sdiv 2) < 1 then 1 else f64_of_int (rate sdiv 2)) = f64_of_int (dynBurst rate)"
proof (cases "rate sdiv 2 < 1")
  case True
  then have "f64_of_int (rate sdiv 2) \<le> f64_of_int 0" by (intro f64_of_int_mono) simp
  then show ?thesis using True by (simp add: dynBurst_def f64_of_int_zero f64_of_int_one)
next
  case False
  then have "f64_of_int 1 \<le> f64_of_int (rate sdiv 2)" by (intro f64_of_int_mono) simp
  then show ?thesis using False by (simp add: dynBurst_def f64_of_int_one)
qed

lemma refill_within:
  assumes "0 \<le> rate" and "0 \<le> tokens b" and "tokens b \<le> f64_of_int (dynBurst rate)"
  shows "0 \<le> tokens (refill now rate b) \<and> tokens (refill now rate b) \<le> f64_of_int (dynBurst rate)"
proof (cases "0 < Minutes (Sub now (last_refill b))")
  case False
  then show ?thesis using assms by (simp add: refill_def)
next
  case True
  let ?e = "Minutes (Sub now (last_refill b))"
  let ?t = "f64_add (tokens b) (f64_mul ?e (f64_of_int rate))"
  let ?cap = "f64_of_int (dynBurst rate)"
  have r: "0 \<le> f64_of_int rate"
    using f64_of_int_mono[OF assms(1)] by (simp add: f64_of_int_zero)
  have "0 \<le> f64_mul ?e (f64_of_int rate)"
    using True r by (simp add: f64_mul_def round_f64_nonneg)
  then have t: "0 \<le> ?t" using assms(2) by (simp add: f64_add_def round_f64_nonneg)
  have c: "0 \<le> ?cap" using burst_cap_ge_1[of rate] by simp
  have "tokens (refill now rate b) = (if ?cap < ?t then ?cap else ?t)"
    using True by (simp add: refill_def Let_def maxTokens_eq)
  then show ?thesis using t c by simp
qed

lemma consume_within:
  assumes "1 \<le> t" and "t \<le> f64_of_int (dynBurst rate)"
  shows "0 \<le> f64_sub t 1 \<and> f64_sub t 1 \<le> f64_of_int (dynBurst rate)"
proof -
  have "0 \<le> f64_sub t 1" using assms(1) by (simp add: f64_sub_def round_f64_nonneg)
  moreover have "round_f64 (t - 1) \<le> round_f64 (f64_of_int (dynBurst rate))"
    using assms(2) by (intro round_f64_mono) simp
  ultimately show ?thesis by (simp add: f64_sub_def burst_cap_fixed)
qed

lemma tokens_within_iff:
  "tokens_within rho rl \<longleftrightarrow>
     (\<forall>(k, b) \<in> set (buckets rl). 0 \<le> tokens b \<and> tokens b \<le> f64_of_int (dynBurst (rho k)))"
  by (simp add: tokens_within_def list_all_iff)

lemma tokens_within_subset:
  "tokens_within rho rl \<Longrightarrow> set (buckets rl') \<subseteq> set (buckets rl) \<Longrightarrow> tokens_within rho rl'"
  by (auto simp add: tokens_within_iff)

lemma tokens_within_cleanup: "tokens_within rho rl \<Longrightarrow> tokens_within rho (take_cleanup now rl)"
  by (rule tokens_within_subset) (auto simp add: take_cleanup_def cleanupStaleBuckets_def)

lemma tokens_within_evict:
  "tokens_within rho rl \<Longrightarrow> tokens_within rho (snd (evictOldestBucket now rl))"
proof (rule tokens_within_subset)
  show "set (buckets (snd (evictOldestBucket now rl))) \<subseteq> set (buckets rl)"
    using set_delete_subset[of _ "buckets rl"]
    by (auto simp add: evictOldestBucket_def split: prod.splits)
qed

lemma tokens_within_update:
  assumes "tokens_within rho rl" and "0 \<le> tokens b" and "tokens b \<le> f64_of_int (dynBurst (rho key))"
  shows "tokens_within rho (rl\<lparr>buckets := AList.update key b (buckets rl)\<rparr>)"
  using assms by (auto simp add: tokens_within_iff dest!: set_update_cases)

lemma tokens_within_admit:
  assumes "0 \<le> rho key" and "tokens_within rho rl"
    and "0 \<le> tokens b" and "tokens b \<le> f64_of_int (dynBurst (rho key))"
  shows "tokens_within rho (snd (snd (admit oor now key (rho key) b rl)))"
proof -
  note w = refill_within[OF assms(1,3,4), of now]
  show ?thesis
  proof (cases "1 \<le> tokens (refill now (rho key) b)")
    case True
    from consume_within[OF True] w show ?thesis
      using True by (simp add: admit_def Let_def tokens_within_update[OF assms(2)])
  next
    case False
    then show ?thesis using w by (simp add: admit_def Let_def tokens_within_update[OF assms(2)])
  qed
qed

lemma newBucket_within:
  "0 \<le> tokens (newBucket rate now) \<and> tokens (newBucket rate now) \<le> f64_of_int (dynBurst rate)"
  using burst_cap_ge_1[of rate] by (simp add: newBucket_def)

lemma tokens_within_lookup:
  "tokens_within rho rl \<Longrightarrow> map_of (buckets rl) key = Some b
   \<Longrightarrow> 0 \<le> tokens b \<and> tokens b \<le> f64_of_int (dynBurst (rho key))"
  by (auto simp add: tokens_within_iff dest!: map_of_SomeD)

lemma tokens_within_take_lookup:
  assumes "0 \<le> rho key" and "tokens_within rho rl"
  shows "tokens_within rho (snd (snd (take_lookup oor now key (rho key) rl)))"
proof (cases "map_of (buckets rl) key")
  case (Some b)
  from tokens_within_lookup[OF assms(2) Some] show ?thesis
    using Some by (simp add: take_lookup_def tokens_within_admit[OF assms])
next
  case None
  note nb = newBucket_within[of "rho key" now]
  obtain ok rl' where e: "evictOldestBucket now rl = (ok, rl')" by (cases "evictOldestBucket now rl")
  have w': "tokens_within rho rl'" using tokens_within_evict[OF assms(2), of now] e by simp
  show ?thesis
    using None e w' nb assms
    by (cases ok) (simp_all add: take_lookup_def tokens_within_admit)
qed

lemma tokens_within_take:
  assumes "0 \<le> rho key" and "tokens_within rho rl"
  shows "tokens_within rho (snd (snd (take_rl oor now key (rho key) rl)))"
  unfolding take_rl_def
  by (rule tokens_within_take_lookup[OF assms(1) tokens_within_cleanup[OF assms(2)]])

lemma tokens_within_run:
  assumes "tokens_within rho rl" and "\<forall>(now, key, rate) \<in> set cs. rate = rho key \<and> 0 \<le> rate"
  shows "tokens_within rho (run oor rl cs)"
  using assms
proof (induction cs arbitrary: rl)
  case Nil
  then show ?case by simp
next
  case (Cons c cs)
  obtain now key rate where c: "c = (now, key, rate)" by (cases c)
  have r: "rate = rho key" "0 \<le> rho key" using Cons.prems(2) c by auto
  have "tokens_within rho (snd (snd (take_rl oor now key rate rl)))"
    unfolding r(1) by (rule tokens_within_take[OF r(2) Cons.prems(1)])
  then show ?case using Cons.IH Cons.prems(2) c by simp
qed

lemma decision_tokens_within:
  assumes "0 \<le> rho key" and "tokens_within rho rl"
    and "decision_tokens now key (rho key) rl = Some t"
  shows "0 \<le> t \<and> t \<le> f64_of_int (dynBurst (rho key))"
proof -
  let ?rl = "take_cleanup now rl"
  have w: "tokens_within rho ?rl" using assms(2) by (rule tokens_within_cleanup)
  show ?thesis
  proof (cases "map_of (buckets ?rl) key")
    case (Some b)
    from tokens_within_lookup[OF w Some] refill_within[OF assms(1), of b now] assms(3) Some
    show ?thesis by (simp add: decision_tokens_def)
  next
    case None
    from newBucket_within[of "rho key" now] refill_within[OF assms(1), of "newBucket (rho key) now" now]
      assms(3) None
    show ?thesis by (auto simp add: decision_tokens_def Let_def split: if_splits)
  qed
qed

text \<open>
  Claim C2, amended. When the calls for each key always pass the same rate, and that rate
  is not negative, every bucket of the map holds between zero and the burst capacity of
  its rate after every sequence of calls, and so does the bucket of a call at its
  decision. The capacity is \<open>max(1, rate/2)\<close> as a float64, which is that integer
  whenever it is at most \<open>2^53\<close>.
\<close>

theorem tokens_bounds_fixed_rates:
  assumes "tokens_within rho rl"
    and "\<forall>(now, key, rate) \<in> set cs. rate = rho key \<and> 0 \<le> rate"
    and "0 \<le> rho key"
  shows "tokens_within rho (run oor rl cs)
         \<and> (case decision_tokens now key (rho key) (run oor rl cs) of
              None \<Rightarrow> True
            | Some t \<Rightarrow> 0 \<le> t \<and> t \<le> f64_of_int (dynBurst (rho key)))
         \<and> (dynBurst (rho key) \<le> 2 ^ 53 \<longrightarrow> f64_of_int (dynBurst (rho key)) = of_int (max 1 (rho key sdiv 2)))"
proof -
  have w: "tokens_within rho (run oor rl cs)" using assms(1,2) by (rule tokens_within_run)
  have e: "dynBurst (rho key) \<le> 2 ^ 53 \<longrightarrow> f64_of_int (dynBurst (rho key)) = of_int (max 1 (rho key sdiv 2))"
    using dynBurst_ge_1[of "rho key"] by (auto simp add: f64_of_int_exact dynBurst_eq)
  show ?thesis using w e decision_tokens_within[OF assms(3) w]
    by (auto split: option.splits)
qed

theorem tokens_bounds_fixed_rates_witness:
  "tokens_within (\<lambda>k. 60)
     (run 0 (NewRateLimiter 60 0) [(0, ''a'', 60), (Second, ''b'', 60), (7 * Second, ''a'', 60)])
   \<and> decision_tokens (9 * Second) ''a'' 60
        (run 0 (NewRateLimiter 60 0) [(0, ''a'', 60), (Second, ''b'', 60), (7 * Second, ''a'', 60)]) = Some 30
   \<and> f64_of_int (dynBurst 60) = 30"
proof -
  have a: "tokens_within (\<lambda>k. 60) (NewRateLimiter 60 0)" by code_simp
  have b: "\<forall>(now, key, rate) \<in> set [(0, ''a'', 60), (Second, ''b'', 60), (7 * Second, ''a'', 60)]. rate = (\<lambda>k. 60) key \<and> (0::int) \<le> rate"
    by simp
  have c: "(0::int) \<le> (\<lambda>k. 60) ''a''" by simp
  have d: "decision_tokens (9 * Second) ''a'' 60
        (run 0 (NewRateLimiter 60 0) [(0, ''a'', 60), (Second, ''b'', 60), (7 * Second, ''a'', 60)]) = Some 30"
    by code_simp
  have e: "f64_of_int (dynBurst 60) = 30" by code_simp
  from tokens_bounds_fixed_rates[OF a b c, of 0 "9 * Second"] d e show ?thesis by simp
qed

text \<open>
  Claim C2 as stated fails. After a call with rate 100, a call for the same key at the
  same instant with rate 2 decides on 49 tokens, above the burst capacity 1 of rate 2.
  And a call with rate \<open>- 60\<close> one minute after a call with rate 60 decides on
  \<open>- 31\<close> tokens.
\<close>

theorem tokens_bounds_counterexample:
  "decision_tokens 0 ''a'' 2 (run 0 (NewRateLimiter 600 0) [(0, ''a'', 100)]) = Some 49
   \<and> dynBurst 2 = 1
   \<and> decision_tokens Minute ''a'' (- 60) (run 0 (NewRateLimiter 600 0) [(0, ''a'', 60)]) = Some (- 31)"
  by code_simp

subsection \<open>The retry time of a rejected call\<close>

lemma round_even_near: "y - 1 / 2 \<le> of_int (round_even y) \<and> of_int (round_even y) \<le> y + 1 / 2"
proof -
  define f where "f = \<lfloor>y\<rfloor>"
  define d where "d = y - of_int f"
  define R where "R = round_even y"
  have d: "0 \<le> d" "d < 1" unfolding d_def f_def by linarith+
  have y: "y = of_int f + d" unfolding d_def by simp
  have r: "R = (if d < 1 / 2 then f else if 1 / 2 < d then f + 1 else if even f then f else f + 1)"
    unfolding R_def round_even_def Let_def f_def[symmetric] d_def[symmetric] ..
  have "y - 1 / 2 \<le> of_int R \<and> of_int R \<le> y + 1 / 2"
    unfolding r y using d by auto
  then show ?thesis unfolding R_def .
qed

lemma rel_error_arith:
  fixes y u r e :: rat
  assumes "y - u / 2 \<le> r" and "r \<le> y + u / 2" and "u / 2 \<le> y * e"
  shows "y * (1 - e) \<le> r \<and> r \<le> y * (1 + e)"
proof -
  define z where "z = y * e"
  have "u / 2 \<le> z" using assms(3) by (simp add: z_def)
  with assms(1,2) have "y - z \<le> r \<and> r \<le> y + z" by linarith
  moreover have "y * (1 - e) = y - z" "y * (1 + e) = y + z" by (simp_all add: algebra_simps z_def)
  ultimately show ?thesis by simp
qed

lemma round_f64_rel_error:
  assumes "0 \<le> y"
  shows "y * (1 - 1 / 2 ^ 53) \<le> round_f64 y \<and> round_f64 y \<le> y * (1 + 1 / 2 ^ 53)"
proof (cases "y = 0")
  case True
  then show ?thesis by (simp add: round_f64_zero)
next
  case False
  then have y: "0 < y" using assms by simp
  let ?u = "(2::rat) powi (expo y - 52)"
  let ?m = "y / ?u"
  let ?r = "of_int (round_even ?m) :: rat"
  have u: "0 < ?u" by (rule powi2_pos)
  have ay: "\<bar>y\<bar> = y" using y by simp
  have m: "2 ^ 52 \<le> ?m" using mantissa_bounds(1)[OF False] by (simp only: ay)
  have "2 ^ 52 * ?u \<le> y" using m u by (simp add: pos_le_divide_eq)
  then have half: "?u / 2 \<le> y * (1 / 2 ^ 53)" by simp
  have yu: "?m * ?u = y" using u by simp
  note n = round_even_near[of ?m]
  have lo: "(?m - 1 / 2) * ?u \<le> ?r * ?u" using n u by (intro mult_right_mono) simp_all
  have hi: "?r * ?u \<le> (?m + 1 / 2) * ?u" using n u by (intro mult_right_mono) simp_all
  have "(?m - 1 / 2) * ?u = y - ?u / 2" using yu by (simp add: algebra_simps)
  then have lo': "y - ?u / 2 \<le> ?r * ?u" using lo by simp
  have "(?m + 1 / 2) * ?u = y + ?u / 2" using yu by (simp add: algebra_simps)
  then have hi': "?r * ?u \<le> y + ?u / 2" using hi by simp
  show ?thesis unfolding round_f64_pos_eq[OF y] by (rule rel_error_arith[OF lo' hi' half])
qed

lemma error_chain_arith:
  fixes a r c l h :: rat
  shows "a / r * c * (l ^ 3 / h) = a * l / (r * h) * l * c * l"
  by (simp add: power3_eq_cube)

lemma trunc_near: "0 \<le> v \<Longrightarrow> v - 1 < of_int (trunc v)"
  by (simp add: trunc_def) linarith

lemma trunc_nonneg: "0 \<le> v \<Longrightarrow> 0 \<le> trunc v"
  by (simp add: trunc_def)

lemma take_rl_decision:
  assumes "decision_tokens now key rate rl = Some x"
  shows "fst (take_rl oor now key rate rl) = (1 \<le> x)
         \<and> fst (snd (take_rl oor now key rate rl)) = (if 1 \<le> x then 0 else retryAfter oor x rate)"
proof -
  let ?rl = "take_cleanup now rl"
  show ?thesis
  proof (cases "map_of (buckets ?rl) key")
    case (Some b)
    then show ?thesis using assms
      by (auto simp add: decision_tokens_def take_rl_def take_lookup_def admit_def Let_def)
  next
    case None
    obtain ok rl' where e: "evictOldestBucket now ?rl = (ok, rl')"
      by (cases "evictOldestBucket now ?rl")
    show ?thesis using assms None e
      by (cases ok)
         (auto simp add: decision_tokens_def take_rl_def take_lookup_def admit_def Let_def
           split: if_splits)
  qed
qed

text \<open>
  Claim C6, amended. A call with rate \<open>r > 0\<close> that decides on \<open>x < 1\<close> tokens is
  rejected, and its \<open>retryAfter\<close> is the float64 value of \<open>(1 - x) / r\<close> minutes in
  nanoseconds, converted to a duration by truncation and raised to at least one second.
  So \<open>retryAfter\<close> is at least one second. When the truncated value fits a duration,
  \<open>retryAfter\<close> is less than one nanosecond, and the error of four float64 roundings,
  below \<open>(1 - x) / r\<close> minutes.
\<close>

theorem retry_after_deficit:
  assumes "0 < rate" and "decision_tokens now key rate rl = Some x" and "x < 1"
  shows "\<not> fst (take_rl oor now key rate rl)
         \<and> fst (snd (take_rl oor now key rate rl)) =
             max Second (toDuration oor
               (Some (f64_mul (f64_div (f64_sub 1 x) (f64_of_int rate)) 60000000000)))
         \<and> Second \<le> fst (snd (take_rl oor now key rate rl))
         \<and> (trunc (f64_mul (f64_div (f64_sub 1 x) (f64_of_int rate)) 60000000000) \<le> maxDuration \<longrightarrow>
              (1 - x) / of_int rate * 60000000000 * ((1 - 1 / 2 ^ 53) ^ 3 / (1 + 1 / 2 ^ 53)) - 1
                < of_int (fst (snd (take_rl oor now key rate rl))))"
proof -
  let ?d = "f64_sub 1 x" and ?r = "f64_of_int rate"
  let ?q = "f64_div ?d ?r"
  let ?v = "f64_mul ?q 60000000000"
  let ?lo = "1 - 1 / 2 ^ 53 :: rat" and ?hi = "1 + 1 / 2 ^ 53 :: rat"
  let ?ret = "fst (snd (take_rl oor now key rate rl))"
  have r0: "?r \<noteq> 0" using assms(1) by (simp add: f64_of_int_eq_zero)
  from take_rl_decision[OF assms(2), of oor] assms(3)
  have rej: "\<not> fst (take_rl oor now key rate rl)" and ret: "?ret = retryAfter oor x rate"
    by auto
  have ra: "retryAfter oor x rate = max Second (toDuration oor (Some ?v))"
    using r0 by (simp add: retryAfter_def Let_def max_def)
  have ge: "Second \<le> ?ret" unfolding ret by (rule retryAfter_ge_Second)
  have lo0: "0 < ?lo" and hi0: "0 < ?hi" by simp_all
  have rate0: "(0::rat) < of_int rate" using assms(1) by simp
  have dx: "0 < 1 - x" using assms(3) by simp
  have d: "(1 - x) * ?lo \<le> ?d" using round_f64_rel_error[of "1 - x"] dx by (simp add: f64_sub_def)
  have d0: "0 \<le> ?d" using dx by (simp add: f64_sub_def round_f64_nonneg)
  have rpos: "0 < ?r" using round_f64_pos[OF rate0] by (simp add: f64_of_int_def)
  have rle: "?r \<le> of_int rate * ?hi"
    using round_f64_rel_error[of "of_int rate"] rate0 by (simp add: f64_of_int_def)
  have q1: "(1 - x) * ?lo / (of_int rate * ?hi) \<le> ?d / ?r"
  proof -
    have "(1 - x) * ?lo / (of_int rate * ?hi) \<le> ?d / (of_int rate * ?hi)"
      using d rate0 hi0 by (intro divide_right_mono) simp_all
    also have "\<dots> \<le> ?d / ?r" using rle rpos d0 by (intro divide_left_mono) simp_all
    finally show ?thesis .
  qed
  have dr0: "0 \<le> ?d / ?r" using d0 rpos by simp
  have q0: "0 \<le> ?q" using dr0 by (simp add: f64_div_def round_f64_nonneg)
  have q2: "?d / ?r * ?lo \<le> ?q" using round_f64_rel_error[OF dr0] by (simp add: f64_div_def)
  have v0: "0 \<le> ?v" using q0 by (simp add: f64_mul_def round_f64_nonneg)
  have v1: "?q * 60000000000 * ?lo \<le> ?v"
    using round_f64_rel_error[of "?q * 60000000000"] q0 by (simp add: f64_mul_def)
  have chain: "(1 - x) / of_int rate * 60000000000 * (?lo ^ 3 / ?hi) \<le> ?v"
  proof -
    have "(1 - x) / of_int rate * 60000000000 * (?lo ^ 3 / ?hi)
            = (1 - x) * ?lo / (of_int rate * ?hi) * ?lo * 60000000000 * ?lo"
      by (rule error_chain_arith)
    also have "\<dots> \<le> ?d / ?r * ?lo * 60000000000 * ?lo"
      using q1 lo0 by (intro mult_right_mono) simp_all
    also have "\<dots> \<le> ?q * 60000000000 * ?lo"
      using q2 lo0 by (intro mult_right_mono) simp_all
    also have "\<dots> \<le> ?v" by (rule v1)
    finally show ?thesis .
  qed
  have bound: "trunc ?v \<le> maxDuration \<longrightarrow>
           (1 - x) / of_int rate * 60000000000 * (?lo ^ 3 / ?hi) - 1 < of_int ?ret"
  proof
    assume le: "trunc ?v \<le> maxDuration"
    have "minDuration \<le> trunc ?v" using trunc_nonneg[OF v0] by (simp add: minDuration_def)
    then have "toDuration oor (Some ?v) = trunc ?v" using le by (simp add: toDuration_def)
    then have "trunc ?v \<le> ?ret" unfolding ret ra by simp
    then have "(of_int (trunc ?v) :: rat) \<le> of_int ?ret" by simp
    with trunc_near[OF v0] chain
    show "(1 - x) / of_int rate * 60000000000 * (?lo ^ 3 / ?hi) - 1 < of_int ?ret" by linarith
  qed
  show ?thesis using rej ret ra ge bound by simp
qed

theorem retry_after_deficit_witness:
  "\<not> fst (take_rl 0 0 ''a'' 7 (run 0 (NewRateLimiter 600 0) [(0, ''a'', 2)]))
   \<and> fst (snd (take_rl 0 0 ''a'' 7 (run 0 (NewRateLimiter 600 0) [(0, ''a'', 2)]))) = 8571428571"
proof -
  have a: "(0::int) < 7" by simp
  have b: "decision_tokens 0 ''a'' 7 (run 0 (NewRateLimiter 600 0) [(0, ''a'', 2)]) = Some 0"
    by code_simp
  have c: "(0::rat) < 1" by simp
  have v: "max Second (toDuration 0
               (Some (f64_mul (f64_div (f64_sub 1 0) (f64_of_int 7)) 60000000000))) = 8571428571"
    by code_simp
  from retry_after_deficit[OF a b c, of 0] v show ?thesis by simp
qed

text \<open>
  Claim C6 as stated fails in its bound \<open>retryAfter \<ge> (1 - x) / r\<close> minutes. A call with
  rate 7 that decides on 0 tokens is rejected with 8571428571 nanoseconds, the truncation
  of one seventh of a minute, which is 8571428571.43 nanoseconds.
\<close>

theorem retry_after_deficit_counterexample:
  "decision_tokens 0 ''a'' 7 (run 0 (NewRateLimiter 600 0) [(0, ''a'', 2)]) = Some 0
   \<and> take_rl 0 0 ''a'' 7 (run 0 (NewRateLimiter 600 0) [(0, ''a'', 2)]) =
       (False, 8571428571, run 0 (NewRateLimiter 600 0) [(0, ''a'', 2)])
   \<and> (8571428571 :: rat) < (1 - 0) / 7 * 60000000000"
  by code_simp

subsection \<open>Eviction and the size of the map\<close>

lemma evict_scan_later:
  "evict_scan xs k t False = (k', t', f') \<Longrightarrow>
     \<not> f' \<and> t' \<le> t \<and> (\<forall>(k0, b0) \<in> set xs. t' \<le> accessed b0)
     \<and> ((k' = k \<and> t' = t) \<or> (\<exists>b. (k', b) \<in> set xs \<and> accessed b = t'))"
proof (induction xs arbitrary: k t)
  case Nil
  then show ?case by simp
next
  case (Cons x xs)
  obtain key b where x: "x = (key, b)" by (cases x)
  show ?case
  proof (cases "accessed b < t")
    case True
    with Cons.prems x have "evict_scan xs key (accessed b) False = (k', t', f')"
      by (simp add: Before_def)
    from Cons.IH[OF this] True x show ?thesis by auto
  next
    case False
    with Cons.prems x have "evict_scan xs k t False = (k', t', f')"
      by (simp add: Before_def)
    from Cons.IH[OF this] False x show ?thesis by auto
  qed
qed

lemma evict_scan_first:
  assumes "xs \<noteq> []" and "evict_scan xs k t True = (k', t', f')"
  shows "\<not> f' \<and> (\<forall>(k0, b0) \<in> set xs. t' \<le> accessed b0)
         \<and> (\<exists>b. (k', b) \<in> set xs \<and> accessed b = t')"
proof -
  obtain key b rest where xs: "xs = (key, b) # rest" using assms(1) by (cases xs) auto
  with assms(2) have "evict_scan rest key (accessed b) False = (k', t', f')" by simp
  from evict_scan_later[OF this] xs show ?thesis by auto
qed

lemma evict_success:
  assumes "buckets rl \<noteq> []" and "[] \<notin> fst ` set (buckets rl)"
  shows "\<exists>v bv. (v, bv) \<in> set (buckets rl)
           \<and> (\<forall>(k, b) \<in> set (buckets rl). accessed bv \<le> accessed b)
           \<and> evictOldestBucket now rl = (True, rl\<lparr>buckets := AList.delete v (buckets rl)\<rparr>)"
proof -
  obtain k' t' f' where s: "evict_scan (buckets rl) [] 0 True = (k', t', f')"
    by (cases "evict_scan (buckets rl) [] 0 True")
  from evict_scan_first[OF assms(1) s] obtain b where
    b: "(k', b) \<in> set (buckets rl)" "accessed b = t'"
    and m: "\<forall>(k0, b0) \<in> set (buckets rl). t' \<le> accessed b0" by auto
  have "k' \<noteq> []" using b(1) assms(2) by force
  then have "evictOldestBucket now rl = (True, rl\<lparr>buckets := AList.delete k' (buckets rl)\<rparr>)"
    using s by (simp add: evictOldestBucket_def)
  then show ?thesis using b m by blast
qed

lemma evict_True_shrinks:
  assumes "evictOldestBucket now rl = (True, rl')"
  shows "length (buckets rl') < length (buckets rl) \<and> maxBuckets rl' = maxBuckets rl"
proof -
  obtain k' t' f' where s: "evict_scan (buckets rl) [] 0 True = (k', t', f')"
    by (cases "evict_scan (buckets rl) [] 0 True")
  have k: "k' \<noteq> []" and rl': "rl' = rl\<lparr>buckets := AList.delete k' (buckets rl)\<rparr>"
    using assms s by (auto simp add: evictOldestBucket_def split: if_splits)
  have ne: "buckets rl \<noteq> []" using s k by auto
  from evict_scan_first[OF ne s] obtain b where "(k', b) \<in> set (buckets rl)" by auto
  then have "length (filter (\<lambda>(k0, _). k' \<noteq> k0) (buckets rl)) < length (buckets rl)"
    by (intro length_filter_less[of "(k', b)"]) simp_all
  then show ?thesis unfolding rl' by (simp add: AList.delete_eq)
qed

lemma length_update:
  "length (AList.update k v al) = (if k \<in> fst ` set al then length al else Suc (length al))"
  by (induction al) auto

lemma admit_state:
  "\<exists>b'. snd (snd (admit oor now key rate b rl)) = rl\<lparr>buckets := AList.update key b' (buckets rl)\<rparr>"
  by (auto simp add: admit_def Let_def)

lemma maxBuckets_take_lookup:
  "maxBuckets (snd (snd (take_lookup oor now key rate rl))) = maxBuckets rl"
proof -
  have a: "\<And>b s. maxBuckets (snd (snd (admit oor now key rate b s))) = maxBuckets s"
    by (simp add: admit_def Let_def)
  have e: "maxBuckets (snd (evictOldestBucket now rl)) = maxBuckets rl"
    by (simp add: evictOldestBucket_def split: prod.splits)
  show ?thesis using e
    by (auto simp add: take_lookup_def a split: option.splits prod.splits bool.splits)
qed

lemma maxBuckets_take: "maxBuckets (snd (snd (take_rl oor now key rate rl))) = maxBuckets rl"
  by (simp add: take_rl_def maxBuckets_take_lookup take_cleanup_maxBuckets)

lemma length_take_lookup:
  assumes "int (length (buckets rl)) \<le> maxBuckets rl"
  shows "int (length (buckets (snd (snd (take_lookup oor now key rate rl))))) \<le> maxBuckets rl"
proof (cases "map_of (buckets rl) key")
  case (Some b)
  then have k: "key \<in> fst ` set (buckets rl)" by (force dest: map_of_SomeD)
  obtain b' where "snd (snd (admit oor now key rate b rl)) = rl\<lparr>buckets := AList.update key b' (buckets rl)\<rparr>"
    using admit_state by blast
  then show ?thesis using Some k assms by (simp add: take_lookup_def length_update)
next
  case None
  show ?thesis
  proof (cases "maxBuckets rl \<le> int (length (buckets rl))")
    case False
    obtain b' where "snd (snd (admit oor now key rate (newBucket rate now) rl)) =
        rl\<lparr>buckets := AList.update key b' (buckets rl)\<rparr>"
      using admit_state by blast
    then show ?thesis using None False by (simp add: take_lookup_def length_update)
  next
    case True
    obtain ok rl' where e: "evictOldestBucket now rl = (ok, rl')" by (cases "evictOldestBucket now rl")
    show ?thesis
    proof (cases ok)
      case False
      with e have "rl' = rl" by (simp add: evict_False_state)
      then show ?thesis using None True e False assms by (simp add: take_lookup_def)
    next
      case ok: True
      from evict_True_shrinks[of now rl rl'] e ok
      have l: "length (buckets rl') < length (buckets rl)" by simp
      obtain b' where "snd (snd (admit oor now key rate (newBucket rate now) rl')) =
          rl'\<lparr>buckets := AList.update key b' (buckets rl')\<rparr>"
        using admit_state by blast
      then show ?thesis using None True e ok l assms by (simp add: take_lookup_def length_update)
    qed
  qed
qed

lemma length_take:
  assumes "int (length (buckets rl)) \<le> maxBuckets rl"
  shows "int (length (buckets (snd (snd (take_rl oor now key rate rl))))) \<le> maxBuckets rl"
proof -
  have "int (length (buckets (take_cleanup now rl))) \<le> maxBuckets (take_cleanup now rl)"
    using assms take_cleanup_length[of now rl] by (simp add: take_cleanup_maxBuckets)
  from length_take_lookup[OF this] show ?thesis
    by (simp add: take_rl_def take_cleanup_maxBuckets)
qed

lemma length_run:
  assumes "int (length (buckets rl)) \<le> maxBuckets rl"
  shows "int (length (buckets (run oor rl cs))) \<le> maxBuckets rl \<and> maxBuckets (run oor rl cs) = maxBuckets rl"
  using assms
proof (induction cs arbitrary: rl)
  case Nil
  then show ?case by simp
next
  case (Cons c cs)
  obtain now key rate where c: "c = (now, key, rate)" by (cases c)
  let ?rl = "snd (snd (take_rl oor now key rate rl))"
  have "int (length (buckets ?rl)) \<le> maxBuckets ?rl"
    using length_take[OF Cons.prems] by (simp add: maxBuckets_take)
  from Cons.IH[OF this] show ?case by (simp add: c maxBuckets_take)
qed

subsection \<open>Filling the map\<close>

lemma update_unseen: "k \<notin> fst ` set al \<Longrightarrow> AList.update k v al = al @ [(k, v)]"
  by (induction al) auto

lemma keys_delete: "fst ` set (AList.delete k al) = fst ` set al - {k}"
  by (auto simp add: AList.delete_eq image_iff)

lemma length_delete_distinct:
  "distinct (map fst al) \<Longrightarrow> k \<in> fst ` set al \<Longrightarrow> Suc (length (AList.delete k al)) = length al"
proof (induction al)
  case Nil
  then show ?case by simp
next
  case (Cons x al)
  show ?case
  proof (cases "fst x = k")
    case True
    then have "k \<notin> fst ` set al" using Cons.prems(1) by auto
    then have "AList.delete k al = al" by simp
    then show ?thesis using True by (cases x) simp
  next
    case False
    then have "k \<in> fst ` set al" using Cons.prems(2) by auto
    from Cons.IH[OF _ this] Cons.prems(1) False show ?thesis by (cases x) auto
  qed
qed

lemma map_of_None_iff_keys: "map_of al k = None \<longleftrightarrow> k \<notin> fst ` set al"
  by (simp add: map_of_eq_None_iff)

lemma take_rl_fresh:
  assumes "\<not> bucketCleanupInterval < Sub now (lastCleanup rl)"
    and "key \<notin> fst ` set (buckets rl)"
    and "int (length (buckets rl)) < maxBuckets rl"
  shows "\<exists>b'. snd (snd (take_rl oor now key rate rl)) = rl\<lparr>buckets := buckets rl @ [(key, b')]\<rparr>"
proof -
  have n: "map_of (buckets rl) key = None" using assms(2) by (simp add: map_of_None_iff_keys)
  obtain b' where "snd (snd (admit oor now key rate (newBucket rate now) rl)) =
      rl\<lparr>buckets := AList.update key b' (buckets rl)\<rparr>"
    using admit_state by blast
  then have "snd (snd (take_rl oor now key rate rl)) = rl\<lparr>buckets := buckets rl @ [(key, b')]\<rparr>"
    using assms n
    by (simp add: take_rl_def take_cleanup_no_sweep take_lookup_def update_unseen)
  then show ?thesis ..
qed

lemma fill:
  assumes "distinct_keys rl"
    and "\<forall>(t, k, r) \<in> set cs. \<not> bucketCleanupInterval < Sub t (lastCleanup rl)"
    and "distinct (map (fst \<circ> snd) cs)"
    and "(fst \<circ> snd) ` set cs \<inter> fst ` set (buckets rl) = {}"
    and "int (length (buckets rl) + length cs) \<le> maxBuckets rl"
  shows "distinct_keys (run oor rl cs)
         \<and> fst ` set (buckets (run oor rl cs)) = fst ` set (buckets rl) \<union> (fst \<circ> snd) ` set cs
         \<and> length (buckets (run oor rl cs)) = length (buckets rl) + length cs
         \<and> lastCleanup (run oor rl cs) = lastCleanup rl
         \<and> maxBuckets (run oor rl cs) = maxBuckets rl"
  using assms
proof (induction cs arbitrary: rl)
  case Nil
  then show ?case by simp
next
  case (Cons c cs)
  obtain now key rate where c: "c = (now, key, rate)" by (cases c)
  have ns: "\<not> bucketCleanupInterval < Sub now (lastCleanup rl)" using Cons.prems(2) c by simp
  have k: "key \<notin> fst ` set (buckets rl)" using Cons.prems(4) c by auto
  have l: "int (length (buckets rl)) < maxBuckets rl" using Cons.prems(5) by simp
  from take_rl_fresh[OF ns k l, of oor rate] obtain b' where
    t: "snd (snd (take_rl oor now key rate rl)) = rl\<lparr>buckets := buckets rl @ [(key, b')]\<rparr>" ..
  let ?rl = "rl\<lparr>buckets := buckets rl @ [(key, b')]\<rparr>"
  have "distinct_keys (run oor ?rl cs)
         \<and> fst ` set (buckets (run oor ?rl cs)) = fst ` set (buckets ?rl) \<union> (fst \<circ> snd) ` set cs
         \<and> length (buckets (run oor ?rl cs)) = length (buckets ?rl) + length cs
         \<and> lastCleanup (run oor ?rl cs) = lastCleanup ?rl
         \<and> maxBuckets (run oor ?rl cs) = maxBuckets ?rl"
  proof (rule Cons.IH)
    show "distinct_keys ?rl" using Cons.prems(1) k by (simp add: distinct_keys_def)
    show "\<forall>(t, k, r) \<in> set cs. \<not> bucketCleanupInterval < Sub t (lastCleanup ?rl)"
      using Cons.prems(2) by auto
    show "distinct (map (fst \<circ> snd) cs)" using Cons.prems(3) by (simp add: comp_def)
    show "(fst \<circ> snd) ` set cs \<inter> fst ` set (buckets ?rl) = {}"
      using Cons.prems(3,4) c by auto
    show "int (length (buckets ?rl) + length cs) \<le> maxBuckets ?rl"
      using Cons.prems(5) by simp
  qed
  then show ?case by (auto simp add: c t)
qed

lemma evict_step:
  assumes "distinct_keys rl"
    and "int (length (buckets rl)) = maxBuckets rl" and "1 \<le> maxBuckets rl"
    and "key \<notin> fst ` set (buckets rl)" and "[] \<notin> fst ` set (buckets rl)"
    and "\<not> bucketCleanupInterval < Sub now (lastCleanup rl)"
  shows "\<exists>v bv. (v, bv) \<in> set (buckets rl)
           \<and> (\<forall>(k, b) \<in> set (buckets rl). accessed bv \<le> accessed b)
           \<and> fst ` set (buckets (snd (snd (take_rl oor now key rate rl)))) =
               fst ` set (buckets rl) - {v} \<union> {key}
           \<and> int (length (buckets (snd (snd (take_rl oor now key rate rl))))) = maxBuckets rl"
proof -
  have ne: "buckets rl \<noteq> []" using assms(2,3) by auto
  from evict_success[OF ne assms(5), of now] obtain v bv where
    v: "(v, bv) \<in> set (buckets rl)"
    and m: "\<forall>(k, b) \<in> set (buckets rl). accessed bv \<le> accessed b"
    and e: "evictOldestBucket now rl = (True, rl\<lparr>buckets := AList.delete v (buckets rl)\<rparr>)"
    by blast
  let ?rl' = "rl\<lparr>buckets := AList.delete v (buckets rl)\<rparr>"
  have n: "map_of (buckets rl) key = None" using assms(4) by (simp add: map_of_None_iff_keys)
  obtain b' where "snd (snd (admit oor now key rate (newBucket rate now) ?rl')) =
      ?rl'\<lparr>buckets := AList.update key b' (buckets ?rl')\<rparr>"
    using admit_state by blast
  then have t: "snd (snd (take_rl oor now key rate rl)) =
      rl\<lparr>buckets := AList.update key b' (AList.delete v (buckets rl))\<rparr>"
    using assms(2,6) n e by (simp add: take_rl_def take_cleanup_no_sweep take_lookup_def)
  have vk: "v \<in> fst ` set (buckets rl)" using v by force
  have kd: "key \<notin> fst ` set (AList.delete v (buckets rl))" using assms(4) by (simp add: keys_delete)
  have len: "Suc (length (AList.delete v (buckets rl))) = length (buckets rl)"
    using assms(1) vk by (intro length_delete_distinct) (simp_all add: distinct_keys_def)
  have keys: "fst ` set (buckets (snd (snd (take_rl oor now key rate rl)))) =
               fst ` set (buckets rl) - {v} \<union> {key}"
    unfolding t by (auto simp add: dom_update keys_delete)
  have "int (length (buckets (snd (snd (take_rl oor now key rate rl))))) = maxBuckets rl"
    unfolding t using kd len assms(2) by (simp add: length_update)
  then show ?thesis using v m keys by blast
qed

lemma run_append: "run oor rl (xs @ ys) = run oor (run oor rl xs) ys"
  by (induction xs arbitrary: rl) auto

text \<open>
  Claim C4, amended. A limiter that holds at most \<open>maxBuckets\<close> buckets holds at most
  \<open>maxBuckets\<close> buckets after every sequence of calls. Starting from an empty map with
  \<open>maxBuckets \<ge> 1\<close>, calls for \<open>maxBuckets + 1\<close> distinct keys, none of the first
  \<open>maxBuckets\<close> the empty key, and none of them late enough to trigger the stale sweep,
  leave exactly \<open>maxBuckets\<close> buckets: the last call removes a bucket whose access time
  is the oldest and adds its own.
\<close>

theorem bounded_buckets:
  "(int (length (buckets rl)) \<le> maxBuckets rl \<longrightarrow>
      int (length (buckets (run oor rl cs))) \<le> maxBuckets rl
      \<and> maxBuckets (run oor rl cs) = maxBuckets rl)
   \<and> (buckets rl = [] \<and> 1 \<le> maxBuckets rl \<and> int (length cs) = maxBuckets rl
       \<and> distinct (map (fst \<circ> snd) (cs @ [(now, key, rate)]))
       \<and> [] \<notin> (fst \<circ> snd) ` set cs
       \<and> (\<forall>(t, k, r) \<in> set (cs @ [(now, key, rate)]).
             \<not> bucketCleanupInterval < Sub t (lastCleanup rl)) \<longrightarrow>
      int (length (buckets (run oor rl (cs @ [(now, key, rate)])))) = maxBuckets rl
      \<and> (\<exists>v bv. (v, bv) \<in> set (buckets (run oor rl cs))
            \<and> (\<forall>(k, b) \<in> set (buckets (run oor rl cs)). accessed bv \<le> accessed b)
            \<and> fst ` set (buckets (run oor rl (cs @ [(now, key, rate)]))) =
                fst ` set (buckets (run oor rl cs)) - {v} \<union> {key}))"
proof (intro conjI impI)
  assume "int (length (buckets rl)) \<le> maxBuckets rl"
  from length_run[OF this, of oor cs]
  show "int (length (buckets (run oor rl cs))) \<le> maxBuckets rl"
    and "maxBuckets (run oor rl cs) = maxBuckets rl" by simp_all
next
  assume a: "buckets rl = [] \<and> 1 \<le> maxBuckets rl \<and> int (length cs) = maxBuckets rl
       \<and> distinct (map (fst \<circ> snd) (cs @ [(now, key, rate)]))
       \<and> [] \<notin> (fst \<circ> snd) ` set cs
       \<and> (\<forall>(t, k, r) \<in> set (cs @ [(now, key, rate)]).
             \<not> bucketCleanupInterval < Sub t (lastCleanup rl))"
  let ?s = "run oor rl cs"
  have f: "distinct_keys ?s
         \<and> fst ` set (buckets ?s) = fst ` set (buckets rl) \<union> (fst \<circ> snd) ` set cs
         \<and> length (buckets ?s) = length (buckets rl) + length cs
         \<and> lastCleanup ?s = lastCleanup rl
         \<and> maxBuckets ?s = maxBuckets rl"
    using a by (intro fill) (auto simp add: distinct_keys_def)
  have st: "\<exists>v bv. (v, bv) \<in> set (buckets ?s)
           \<and> (\<forall>(k, b) \<in> set (buckets ?s). accessed bv \<le> accessed b)
           \<and> fst ` set (buckets (snd (snd (take_rl oor now key rate ?s)))) =
               fst ` set (buckets ?s) - {v} \<union> {key}
           \<and> int (length (buckets (snd (snd (take_rl oor now key rate ?s))))) = maxBuckets ?s"
  proof (rule evict_step)
    show "distinct_keys ?s" using f by simp
    show "int (length (buckets ?s)) = maxBuckets ?s" using f a by simp
    show "1 \<le> maxBuckets ?s" using f a by simp
    show "key \<notin> fst ` set (buckets ?s)" using f a by auto
    show "[] \<notin> fst ` set (buckets ?s)" using f a by auto
    show "\<not> bucketCleanupInterval < Sub now (lastCleanup ?s)" using f a by simp
  qed
  have r: "run oor rl (cs @ [(now, key, rate)]) = snd (snd (take_rl oor now key rate ?s))"
    by (simp add: run_append)
  show "int (length (buckets (run oor rl (cs @ [(now, key, rate)])))) = maxBuckets rl"
    unfolding r using st f by auto
  show "\<exists>v bv. (v, bv) \<in> set (buckets ?s)
            \<and> (\<forall>(k, b) \<in> set (buckets ?s). accessed bv \<le> accessed b)
            \<and> fst ` set (buckets (run oor rl (cs @ [(now, key, rate)]))) =
                fst ` set (buckets ?s) - {v} \<union> {key}"
    unfolding r using st by blast
qed

theorem bounded_buckets_witness:
  "int (length (buckets (run 0 ((NewRateLimiter 60 0)\<lparr>maxBuckets := 2\<rparr>)
          ([(0, ''a'', 60), (1, ''b'', 60)] @ [(2, ''c'', 60)])))) = 2
   \<and> map fst (buckets (run 0 ((NewRateLimiter 60 0)\<lparr>maxBuckets := 2\<rparr>)
          ([(0, ''a'', 60), (1, ''b'', 60)] @ [(2, ''c'', 60)]))) = [''b'', ''c'']"
proof -
  let ?rl = "(NewRateLimiter 60 0)\<lparr>maxBuckets := 2\<rparr>"
  let ?cs = "[(0, ''a'', 60), (1, ''b'', 60)] :: (time \<times> string \<times> int) list"
  have h: "buckets ?rl = [] \<and> 1 \<le> maxBuckets ?rl \<and> int (length ?cs) = maxBuckets ?rl
       \<and> distinct (map (fst \<circ> snd) (?cs @ [(2, ''c'', 60)]))
       \<and> [] \<notin> (fst \<circ> snd) ` set ?cs
       \<and> (\<forall>(t, k, r) \<in> set (?cs @ [(2, ''c'', 60)]).
             \<not> bucketCleanupInterval < Sub t (lastCleanup ?rl))"
    by (simp add: NewRateLimiter_def Sub_def bucketCleanupInterval_def Minute_def Second_def
        maxDuration_def minDuration_def)
  have m: "maxBuckets ?rl = 2" by simp
  have k: "map fst (buckets (run 0 ?rl (?cs @ [(2, ''c'', 60)]))) = [''b'', ''c'']"
    by code_simp
  from bounded_buckets[of ?rl 0 ?cs 2 "''c''" 60, THEN conjunct2, rule_format, OF h] m k
  show ?thesis by simp
qed

text \<open>
  Claim C4 as stated fails when the calls are far apart in time. With \<open>maxBuckets = 2\<close>
  and three distinct keys, the third call comes 17 minutes after the first and 16 minutes
  after the second: its sweep removes both stale buckets, and the map holds one bucket.
\<close>

theorem bounded_buckets_counterexample:
  "length (buckets (run 0 ((NewRateLimiter 60 0)\<lparr>maxBuckets := 2\<rparr>)
     [(0, ''a'', 60), (Minute, ''b'', 60), (17 * Minute, ''c'', 60)])) = 1"
  by code_simp

subsection \<open>Isolation of keys\<close>

lemma filter_frame:
  assumes "distinct (map fst xs)"
  shows "map_of (filter P xs) A = None \<or> map_of (filter P xs) A = map_of xs A"
  using assms
proof (induction xs)
  case Nil
  then show ?case by simp
next
  case (Cons x xs)
  obtain k' v' where x: "x = (k', v')" by (cases x)
  have ih: "map_of (filter P xs) A = None \<or> map_of (filter P xs) A = map_of xs A"
    using Cons by simp
  show ?case
  proof (cases "A = k'")
    case True
    have "k' \<notin> fst ` set xs" using Cons.prems x by simp
    then have "map_of xs k' = None" by (simp add: map_of_None_iff_keys)
    then have "map_of (filter P xs) k' = None" by (rule map_of_filter_None)
    then show ?thesis using True x by simp
  next
    case False
    then show ?thesis using ih x by simp
  qed
qed

lemma frame_cleanup:
  assumes "distinct_keys rl"
  shows "map_of (buckets (take_cleanup now rl)) A = None
         \<or> map_of (buckets (take_cleanup now rl)) A = map_of (buckets rl) A"
  using filter_frame[of "buckets rl" _ A] assms
  by (auto simp add: take_cleanup_def cleanupStaleBuckets_def distinct_keys_def)

lemma frame_evict:
  "map_of (buckets (snd (evictOldestBucket now rl))) A = None
   \<or> map_of (buckets (snd (evictOldestBucket now rl))) A = map_of (buckets rl) A"
  by (auto simp add: evictOldestBucket_def delete_conv' split: prod.splits)

lemma frame_admit:
  "key \<noteq> A \<Longrightarrow> map_of (buckets (snd (snd (admit oor now key rate b rl)))) A = map_of (buckets rl) A"
  by (simp add: admit_def Let_def update_conv')

lemma frame_take_lookup:
  assumes "key \<noteq> A"
  shows "map_of (buckets (snd (snd (take_lookup oor now key rate rl)))) A = None
         \<or> map_of (buckets (snd (snd (take_lookup oor now key rate rl)))) A = map_of (buckets rl) A"
proof -
  obtain ok rl' where e: "evictOldestBucket now rl = (ok, rl')" by (cases "evictOldestBucket now rl")
  from frame_evict[of now rl A] e
  have f: "map_of (buckets rl') A = None \<or> map_of (buckets rl') A = map_of (buckets rl) A" by simp
  show ?thesis using f e frame_admit[OF assms]
    by (cases ok) (auto simp add: take_lookup_def split: option.splits)
qed

lemma frame_take:
  assumes "distinct_keys rl" and "key \<noteq> A"
  shows "map_of (buckets (snd (snd (take_rl oor now key rate rl)))) A = None
         \<or> map_of (buckets (snd (snd (take_rl oor now key rate rl)))) A = map_of (buckets rl) A"
  using frame_cleanup[OF assms(1), of now A] frame_take_lookup[OF assms(2), of oor now rate "take_cleanup now rl"]
  by (auto simp add: take_rl_def)

lemma take_rl_plain:
  "\<exists>F. \<forall>rl :: RateLimiter. \<not> bucketCleanupInterval < Sub now (lastCleanup rl)
          \<and> (key \<in> fst ` set (buckets rl) \<or> int (length (buckets rl)) < maxBuckets rl) \<longrightarrow>
        snd (snd (take_rl oor now key rate rl)) =
          rl\<lparr>buckets := AList.update key (F (map_of (buckets rl) key)) (buckets rl)\<rparr>"
proof -
  define G where "G = (\<lambda>b. let b1 = refill now rate b
                in if 1 \<le> tokens b1 then b1\<lparr>tokens := f64_sub (tokens b1) 1\<rparr> else b1)"
  define F where "F = (\<lambda>m. G (case m of None \<Rightarrow> newBucket rate now | Some b \<Rightarrow> b))"
  have a: "\<And>b (rl :: RateLimiter). snd (snd (admit oor now key rate b rl)) =
             rl\<lparr>buckets := AList.update key (G b) (buckets rl)\<rparr>"
    by (simp add: admit_def Let_def G_def)
  have "\<forall>rl :: RateLimiter. \<not> bucketCleanupInterval < Sub now (lastCleanup rl)
          \<and> (key \<in> fst ` set (buckets rl) \<or> int (length (buckets rl)) < maxBuckets rl) \<longrightarrow>
        snd (snd (take_rl oor now key rate rl)) =
          rl\<lparr>buckets := AList.update key (F (map_of (buckets rl) key)) (buckets rl)\<rparr>"
  proof (intro allI impI)
    fix rl :: RateLimiter
    assume h: "\<not> bucketCleanupInterval < Sub now (lastCleanup rl)
          \<and> (key \<in> fst ` set (buckets rl) \<or> int (length (buckets rl)) < maxBuckets rl)"
    show "snd (snd (take_rl oor now key rate rl)) =
          rl\<lparr>buckets := AList.update key (F (map_of (buckets rl) key)) (buckets rl)\<rparr>"
    proof (cases "map_of (buckets rl) key")
      case (Some b)
      then show ?thesis using h
        by (simp add: take_rl_def take_cleanup_no_sweep take_lookup_def a F_def)
    next
      case None
      then have "key \<notin> fst ` set (buckets rl)" by (simp add: map_of_None_iff_keys)
      then have "int (length (buckets rl)) < maxBuckets rl" using h by simp
      then show ?thesis using h None
        by (simp add: take_rl_def take_cleanup_no_sweep take_lookup_def a F_def)
    qed
  qed
  then show ?thesis by (rule exI[of _ F])
qed

lemma length_card_keys: "distinct_keys rl \<Longrightarrow> length (buckets rl) = card (fst ` set (buckets rl))"
  using distinct_card[of "map fst (buckets rl)"] by (simp add: distinct_keys_def)

lemma room_for_key:
  assumes "distinct_keys rl" and "fst ` set (buckets rl) \<subseteq> K" and "key \<in> K" and "finite K"
    and "int (card K) \<le> maxBuckets rl"
  shows "key \<in> fst ` set (buckets rl) \<or> int (length (buckets rl)) < maxBuckets rl"
proof (cases "key \<in> fst ` set (buckets rl)")
  case True
  then show ?thesis ..
next
  case False
  then have "fst ` set (buckets rl) \<subset> K" using assms(2,3) by auto
  then have "card (fst ` set (buckets rl)) < card K" using assms(4) by (rule psubset_card_mono[rotated])
  then show ?thesis using assms(5) length_card_keys[OF assms(1)] by simp
qed

lemma isolation_aux:
  assumes "distinct_keys s" and "distinct_keys s'"
    and "lastCleanup s = lastCleanup s'" and "maxBuckets s = maxBuckets s'"
    and "map_of (buckets s) A = map_of (buckets s') A"
    and "fst ` set (buckets s) \<subseteq> K" and "fst ` set (buckets s') \<subseteq> K"
    and "(fst \<circ> snd) ` set cs \<subseteq> K" and "finite K" and "int (card K) \<le> maxBuckets s"
    and "\<forall>(t, k, r) \<in> set cs. \<not> bucketCleanupInterval < Sub t (lastCleanup s)"
  shows "map_of (buckets (run oor s cs)) A =
         map_of (buckets (run oor s' (filter (\<lambda>c. fst (snd c) = A) cs))) A"
  using assms
proof (induction cs arbitrary: s s')
  case Nil
  then show ?case by simp
next
  case (Cons c cs)
  obtain now key rate where c: "c = (now, key, rate)" by (cases c)
  have ns: "\<not> bucketCleanupInterval < Sub now (lastCleanup s)" using Cons.prems(11) c by simp
  have kK: "key \<in> K" using Cons.prems(8) c by simp
  obtain F where F: "\<And>rl :: RateLimiter. \<not> bucketCleanupInterval < Sub now (lastCleanup rl)
          \<and> (key \<in> fst ` set (buckets rl) \<or> int (length (buckets rl)) < maxBuckets rl) \<Longrightarrow>
        snd (snd (take_rl oor now key rate rl)) =
          rl\<lparr>buckets := AList.update key (F (map_of (buckets rl) key)) (buckets rl)\<rparr>"
    using take_rl_plain[of now key oor rate] by blast
  let ?s1 = "s\<lparr>buckets := AList.update key (F (map_of (buckets s) key)) (buckets s)\<rparr>"
  have t: "snd (snd (take_rl oor now key rate s)) = ?s1"
    using ns room_for_key[OF Cons.prems(1,6) kK Cons.prems(9,10)] by (intro F) simp
  have d1: "distinct_keys ?s1" using Cons.prems(1) by (simp add: distinct_keys_def distinct_update)
  have k1: "fst ` set (buckets ?s1) \<subseteq> K" using Cons.prems(6) kK by (simp add: dom_update)
  have cs: "(fst \<circ> snd) ` set cs \<subseteq> K" using Cons.prems(8) by simp
  have ns1: "\<forall>(t, k, r) \<in> set cs. \<not> bucketCleanupInterval < Sub t (lastCleanup ?s1)"
    using Cons.prems(11) by auto
  show ?case
  proof (cases "key = A")
    case True
    let ?s1' = "s'\<lparr>buckets := AList.update key (F (map_of (buckets s') key)) (buckets s')\<rparr>"
    have ns': "\<not> bucketCleanupInterval < Sub now (lastCleanup s')" using ns Cons.prems(3) by simp
    have m': "int (card K) \<le> maxBuckets s'" using Cons.prems(4,10) by simp
    have t': "snd (snd (take_rl oor now key rate s')) = ?s1'"
      using ns' room_for_key[OF Cons.prems(2,7) kK Cons.prems(9) m'] by (intro F) simp
    have "map_of (buckets (run oor ?s1 cs)) A =
          map_of (buckets (run oor ?s1' (filter (\<lambda>c. fst (snd c) = A) cs))) A"
    proof (rule Cons.IH[OF d1 _ _ _ _ k1 _ cs Cons.prems(9) _ ns1])
      show "distinct_keys ?s1'" using Cons.prems(2) by (simp add: distinct_keys_def distinct_update)
      show "lastCleanup ?s1 = lastCleanup ?s1'" using Cons.prems(3) by simp
      show "maxBuckets ?s1 = maxBuckets ?s1'" using Cons.prems(4) by simp
      show "map_of (buckets ?s1) A = map_of (buckets ?s1') A"
        using Cons.prems(5) True by (simp add: update_conv')
      show "fst ` set (buckets ?s1') \<subseteq> K" using Cons.prems(7) kK by (simp add: dom_update)
      show "int (card K) \<le> maxBuckets ?s1" using Cons.prems(10) by simp
    qed
    then show ?thesis using True c t t' by simp
  next
    case False
    have "map_of (buckets (run oor ?s1 cs)) A =
          map_of (buckets (run oor s' (filter (\<lambda>c. fst (snd c) = A) cs))) A"
    proof (rule Cons.IH[OF d1 Cons.prems(2) _ _ _ k1 Cons.prems(7) cs Cons.prems(9) _ ns1])
      show "lastCleanup ?s1 = lastCleanup s'" using Cons.prems(3) by simp
      show "maxBuckets ?s1 = maxBuckets s'" using Cons.prems(4) by simp
      show "map_of (buckets ?s1) A = map_of (buckets s') A"
        using Cons.prems(5) False by (simp add: update_conv')
      show "int (card K) \<le> maxBuckets ?s1" using Cons.prems(10) by simp
    qed
    then show ?thesis using False c t by simp
  qed
qed

text \<open>
  Claim C8, amended. In a limiter with one bucket per key, a call for another key leaves
  the bucket of key \<open>A\<close> as it was or removes it (by the stale sweep or by eviction); it
  never changes it. In a sequence of calls during which no stale sweep is triggered and
  the keys in use are at most \<open>maxBuckets\<close>, so that nothing is evicted, the bucket of
  key \<open>A\<close> at the end, token count included, is the one that the calls for \<open>A\<close> alone
  produce, in the same order and at the same times.
\<close>

theorem isolation_without_removal:
  assumes "distinct_keys rl"
  shows "(key \<noteq> A \<longrightarrow>
            map_of (buckets (snd (snd (take_rl oor now key rate rl)))) A = None
            \<or> map_of (buckets (snd (snd (take_rl oor now key rate rl)))) A = map_of (buckets rl) A)
         \<and> ((\<forall>(t, k, r) \<in> set cs. \<not> bucketCleanupInterval < Sub t (lastCleanup rl))
             \<and> int (card (fst ` set (buckets rl) \<union> (fst \<circ> snd) ` set cs)) \<le> maxBuckets rl \<longrightarrow>
            map_of (buckets (run oor rl cs)) A =
            map_of (buckets (run oor rl (filter (\<lambda>c. fst (snd c) = A) cs))) A)"
proof (intro conjI impI)
  assume "key \<noteq> A"
  then show "map_of (buckets (snd (snd (take_rl oor now key rate rl)))) A = None
            \<or> map_of (buckets (snd (snd (take_rl oor now key rate rl)))) A = map_of (buckets rl) A"
    by (rule frame_take[OF assms])
next
  let ?K = "fst ` set (buckets rl) \<union> (fst \<circ> snd) ` set cs"
  assume h: "(\<forall>(t, k, r) \<in> set cs. \<not> bucketCleanupInterval < Sub t (lastCleanup rl))
             \<and> int (card ?K) \<le> maxBuckets rl"
  show "map_of (buckets (run oor rl cs)) A =
            map_of (buckets (run oor rl (filter (\<lambda>c. fst (snd c) = A) cs))) A"
  proof (rule isolation_aux[where K = ?K])
    show "finite ?K" by simp
    show "int (card ?K) \<le> maxBuckets rl" using h by simp
    show "\<forall>(t, k, r) \<in> set cs. \<not> bucketCleanupInterval < Sub t (lastCleanup rl)" using h by simp
  qed (use assms in simp_all)
qed

theorem isolation_without_removal_witness:
  "map_option tokens (map_of (buckets (run 0 (NewRateLimiter 60 0)
       [(0, ''a'', 60), (Second, ''b'', 60), (2 * Second, ''a'', 60)])) ''a'') = Some 29"
proof -
  let ?rl = "NewRateLimiter 60 0"
  let ?cs = "[(0, ''a'', 60), (Second, ''b'', 60), (2 * Second, ''a'', 60)] :: (time \<times> string \<times> int) list"
  have d: "distinct_keys ?rl" by (simp add: distinct_keys_def NewRateLimiter_def)
  have K: "fst ` set (buckets ?rl) \<union> (fst \<circ> snd) ` set ?cs = {''a'', ''b''}"
    by (auto simp add: NewRateLimiter_def)
  have h: "(\<forall>(t, k, r) \<in> set ?cs. \<not> bucketCleanupInterval < Sub t (lastCleanup ?rl))
             \<and> int (card (fst ` set (buckets ?rl) \<union> (fst \<circ> snd) ` set ?cs)) \<le> maxBuckets ?rl"
    unfolding K
    by (simp add: NewRateLimiter_def Sub_def bucketCleanupInterval_def Minute_def Second_def
        maxDuration_def minDuration_def defaultMaxBuckets_def)
  have f: "filter (\<lambda>c. fst (snd c) = ''a'') ?cs = [(0, ''a'', 60), (2 * Second, ''a'', 60)]"
    by simp
  have v: "map_option tokens (map_of (buckets (run 0 ?rl [(0, ''a'', 60), (2 * Second, ''a'', 60)])) ''a'') = Some 29"
    by code_simp
  from isolation_without_removal[OF d, of "''b''" "''a''" 0 0 60 ?cs, THEN conjunct2, rule_format, OF h]
  have "map_of (buckets (run 0 ?rl ?cs)) ''a'' =
        map_of (buckets (run 0 ?rl (filter (\<lambda>c. fst (snd c) = ''a'') ?cs))) ''a''" .
  then show ?thesis unfolding f using v by simp
qed

text \<open>
  Claim C8 as stated fails. After a call for key \<open>a\<close>, a call for key \<open>b\<close> sixteen
  minutes later sweeps the stale bucket of \<open>a\<close> away: key \<open>a\<close> has no bucket at the
  end, while the call for \<open>a\<close> alone leaves a bucket with 29 tokens.
\<close>

theorem isolation_counterexample:
  "map_of (buckets (run 0 (NewRateLimiter 60 0) [(0, ''a'', 60), (16 * Minute, ''b'', 60)])) ''a'' = None
   \<and> map_option tokens (map_of (buckets (run 0 (NewRateLimiter 60 0) [(0, ''a'', 60)])) ''a'') = Some 29"
  by code_simp

subsection \<open>Eviction when the empty key is oldest\<close>

lemma evict_fails_when_empty_key_oldest:
  assumes "([], b0) \<in> set (buckets rl)"
    and "\<forall>(k, b) \<in> set (buckets rl). k \<noteq> [] \<longrightarrow> accessed b0 < accessed b"
  shows "evictOldestBucket now rl = (False, rl)"
proof -
  obtain k' t' f' where s: "evict_scan (buckets rl) [] 0 True = (k', t', f')"
    by (cases "evict_scan (buckets rl) [] 0 True")
  have ne: "buckets rl \<noteq> []" using assms(1) by auto
  from evict_scan_first[OF ne s] obtain b where
    b: "(k', b) \<in> set (buckets rl)" "accessed b = t'"
    and m: "\<forall>(k0, b0) \<in> set (buckets rl). t' \<le> accessed b0" by auto
  have "t' \<le> accessed b0" using m assms(1) by auto
  then have "k' = []" using assms(2) b by force
  then show ?thesis using s by (simp add: evictOldestBucket_def)
qed

lemma take_rejects_when_empty_key_oldest:
  assumes "([], b0) \<in> set (buckets rl)"
    and "\<forall>(k, b) \<in> set (buckets rl). k \<noteq> [] \<longrightarrow> accessed b0 < accessed b"
    and "key \<notin> fst ` set (buckets rl)"
    and "maxBuckets rl \<le> int (length (buckets rl))"
    and "\<not> bucketCleanupInterval < Sub now (lastCleanup rl)"
  shows "take_rl oor now key rate rl = (False, Minute, rl)"
proof -
  have n: "map_of (buckets rl) key = None" using assms(3) by (simp add: map_of_None_iff_keys)
  show ?thesis
    using assms(4,5) n evict_fails_when_empty_key_oldest[OF assms(1,2), of now]
    by (simp add: take_rl_def take_cleanup_no_sweep take_lookup_def)
qed

end
